theory Spec2Isabelle
  imports Main "HOL-Library.AList"
begin

section \<open>JavaScript strings and the built-ins the brand engine calls\<close>

text \<open>
  A JavaScript string is a sequence of UTF-16 code units; \<open>length\<close>, \<open>indexOf\<close>,
  \<open>split\<close>, \<open>trim\<close> and the regular expressions of \<^verbatim>\<open>brands.ts\<close> (none has the
  \<^verbatim>\<open>u\<close> flag) all work on code units. A code unit is modelled as a natural number.
\<close>

type_synonym ustring = "nat list"

definition ascii :: "string \<Rightarrow> ustring" where
  "ascii s = map of_char s"

text \<open>
  Three built-ins depend on the tables of the Unicode Character Database, which are not part
  of the repository: \<^verbatim>\<open>String.prototype.toLowerCase\<close>, \<^verbatim>\<open>String.prototype.normalize("NFD")\<close>
  and the case folding of a regular expression with the \<^verbatim>\<open>i\<close> flag. On ASCII text all three
  are fixed by the language standard and are modelled exactly. Outside ASCII they are taken as
  a parameter: \<open>lower_str\<close> is \<^verbatim>\<open>toLowerCase\<close> on a string that holds a non-ASCII code unit,
  \<open>nfd_str\<close> is \<^verbatim>\<open>normalize("NFD")\<close> on such a string, and \<open>upper_unit\<close> sends a non-ASCII
  code unit \<open>ch\<close> to the single code unit of \<^verbatim>\<open>ch.toUpperCase()\<close> (to \<open>ch\<close> itself when the
  upper-case form is longer than one code unit). Theorems hold for every value of the parameter.
\<close>

record unicode =
  lower_str :: "ustring \<Rightarrow> ustring"
  nfd_str :: "ustring \<Rightarrow> ustring"
  upper_unit :: "nat \<Rightarrow> nat"

definition is_ascii :: "ustring \<Rightarrow> bool" where
  "is_ascii s = list_all (\<lambda>c. c < 128) s"

definition ascii_lower :: "nat \<Rightarrow> nat" where
  "ascii_lower c = (if 65 \<le> c \<and> c \<le> 90 then c + 32 else c)"

definition ascii_upper :: "nat \<Rightarrow> nat" where
  "ascii_upper c = (if 97 \<le> c \<and> c \<le> 122 then c - 32 else c)"

definition toLowerCase :: "unicode \<Rightarrow> ustring \<Rightarrow> ustring" where
  "toLowerCase U s = (if is_ascii s then map ascii_lower s else lower_str U s)"

definition toUpperCase_ascii :: "ustring \<Rightarrow> ustring" where
  "toUpperCase_ascii s = map ascii_upper s"

definition normalizeNFD :: "unicode \<Rightarrow> ustring \<Rightarrow> ustring" where
  "normalizeNFD U s = (if is_ascii s then s else nfd_str U s)"

text \<open>
  White space as \<^verbatim>\<open>trim\<close> and the class \<^verbatim>\<open>\s\<close> read it (WhiteSpace and LineTerminator of
  the language standard), the line terminators that \<^verbatim>\<open>.\<close> does not match, and the word
  characters of \<^verbatim>\<open>\b\<close> (\<^verbatim>\<open>[A-Za-z0-9_]\<close>).
\<close>

definition is_space :: "nat \<Rightarrow> bool" where
  "is_space c = (c \<in> {9, 10, 11, 12, 13, 32, 160, 5760, 8232, 8233, 8239, 8287, 12288, 65279}
     \<or> (8192 \<le> c \<and> c \<le> 8202))"

definition is_line_terminator :: "nat \<Rightarrow> bool" where
  "is_line_terminator c = (c \<in> {10, 13, 8232, 8233})"

definition is_word_char :: "nat \<Rightarrow> bool" where
  "is_word_char c = ((48 \<le> c \<and> c \<le> 57) \<or> (65 \<le> c \<and> c \<le> 90) \<or> c = 95
     \<or> (97 \<le> c \<and> c \<le> 122))"

definition trim :: "ustring \<Rightarrow> ustring" where
  "trim s = rev (dropWhile is_space (rev (dropWhile is_space s)))"

text \<open>\<^verbatim>\<open>s.split(sep)\<close> for a separator of one code unit; the result is never empty.\<close>

fun split :: "nat \<Rightarrow> ustring \<Rightarrow> ustring list" where
  "split sep [] = [[]]"
| "split sep (c # cs) =
     (if c = sep then [] # split sep cs
      else (case split sep cs of
              [] \<Rightarrow> [[c]]
            | w # ws \<Rightarrow> (c # w) # ws))"

text \<open>\<^verbatim>\<open>hay.indexOf(needle)\<close>; \<open>None\<close> stands for the result \<^verbatim>\<open>-1\<close>.\<close>

definition starts_with :: "ustring \<Rightarrow> ustring \<Rightarrow> bool" where
  "starts_with hay needle = (take (length needle) hay = needle)"

fun indexOf :: "ustring \<Rightarrow> ustring \<Rightarrow> nat option" where
  "indexOf [] needle = (if needle = [] then Some 0 else None)"
| "indexOf (h # hs) needle =
     (if starts_with (h # hs) needle then Some 0 else map_option Suc (indexOf hs needle))"

section \<open>Insertion-ordered collections\<close>

text \<open>
  A \<^verbatim>\<open>Set\<close> iterates in insertion order: a list without repetition, \<^verbatim>\<open>add\<close> appending a
  new element. A \<^verbatim>\<open>Map\<close> likewise: an association list, \<^verbatim>\<open>set\<close> of a new key appending.
\<close>

definition set_add :: "'a \<Rightarrow> 'a list \<Rightarrow> 'a list" where
  "set_add x xs = (if x \<in> set xs then xs else xs @ [x])"

type_synonym brand_map = "(ustring \<times> ustring list) list"

definition map_has :: "('k \<times> 'v) list \<Rightarrow> 'k \<Rightarrow> bool" where
  "map_has m k = (map_of m k \<noteq> None)"

text \<open>
  A plain object created by \<^verbatim>\<open>{}\<close> and used as a dictionary has own properties, held in
  creation order, and a prototype, at first \<^verbatim>\<open>Object.prototype\<close>. \<^verbatim>\<open>Object.entries\<close> and
  \<^verbatim>\<open>Object.values\<close> list the own properties only: the keys that are array indices first, in
  ascending numeric order, and then the other keys in creation order.
\<close>

type_synonym 'v properties = "(ustring \<times> 'v) list"

definition is_digit :: "nat \<Rightarrow> bool" where
  "is_digit c = (48 \<le> c \<and> c \<le> 57)"

definition index_value :: "ustring \<Rightarrow> nat" where
  "index_value k = foldl (\<lambda>n d. 10 * n + (d - 48)) 0 k"

definition is_array_index :: "ustring \<Rightarrow> bool" where
  "is_array_index k =
     (k \<noteq> [] \<and> list_all is_digit k \<and> (k = [48] \<or> hd k \<noteq> 48) \<and> index_value k < 4294967295)"

definition object_entries :: "'v properties \<Rightarrow> (ustring \<times> 'v) list" where
  "object_entries props =
     sort_key (\<lambda>kv. index_value (fst kv)) (filter (\<lambda>kv. is_array_index (fst kv)) props)
     @ filter (\<lambda>kv. \<not> is_array_index (fst kv)) props"

definition object_values :: "'v properties \<Rightarrow> 'v list" where
  "object_values props = map snd (object_entries props)"

text \<open>
  The property names of \<^verbatim>\<open>Object.prototype\<close>. All hold functions but \<^verbatim>\<open>__proto__\<close>, an
  accessor: its getter returns the prototype of the object it is read on, its setter replaces
  that prototype when the value assigned is an object, an array for one, and does nothing
  when the value is a string. So \<^verbatim>\<open>obj["__proto__"] = v\<close> never creates an own property.
\<close>

definition proto_name :: ustring where
  "proto_name = ascii ''__proto__''"

definition object_prototype_names :: "ustring list" where
  "object_prototype_names =
     map ascii [''constructor'', ''__defineGetter__'', ''__defineSetter__'', ''hasOwnProperty'',
                ''__lookupGetter__'', ''__lookupSetter__'', ''isPrototypeOf'',
                ''propertyIsEnumerable'', ''toString'', ''valueOf'', ''__proto__'',
                ''toLocaleString'']"

text \<open>
  What a property read can give in \<^verbatim>\<open>brands.ts\<close>: \<^verbatim>\<open>undefined\<close>, a string, a number, an
  array of strings, or a value inherited under the name \<open>k\<close> from a built-in prototype
  (\<open>Inherited k\<close>: a function, or the object \<^verbatim>\<open>Object.prototype\<close> itself for \<^verbatim>\<open>__proto__\<close>).
  \<open>truthy\<close> is the test of \<^verbatim>\<open>||\<close> and \<^verbatim>\<open>!\<close>.
\<close>

datatype jsval = Undefined | Str ustring | Num nat | Arr "ustring list" | Inherited ustring

definition truthy :: "jsval \<Rightarrow> bool" where
  "truthy v = (case v of Undefined \<Rightarrow> False | Str s \<Rightarrow> s \<noteq> [] | Num n \<Rightarrow> n \<noteq> 0
                       | Arr xs \<Rightarrow> True | Inherited k \<Rightarrow> True)"

text \<open>
  The object \<^verbatim>\<open>brandsMapping\<close>, whose values are arrays. \<open>proto\<close> is \<open>None\<close> while the
  prototype is \<^verbatim>\<open>Object.prototype\<close> and \<open>Some arr\<close> once the array \<open>arr\<close> has been assigned to
  \<^verbatim>\<open>__proto__\<close>; the prototype chain then runs through \<open>arr\<close>, \<^verbatim>\<open>Array.prototype\<close> and
  \<^verbatim>\<open>Object.prototype\<close>. Every property met on the chain by an assignment to another name is a
  writable data property, so such an assignment creates or overwrites an own property.
\<close>

record BrandsMapping =
  own :: "(ustring list) properties"
  proto :: "ustring list option"

definition obj_set :: "ustring \<Rightarrow> ustring list \<Rightarrow> BrandsMapping \<Rightarrow> BrandsMapping" where
  "obj_set k v obj =
     (if k = proto_name then obj\<lparr>proto := Some v\<rparr>
      else obj\<lparr>own := AList.update k v (own obj)\<rparr>)"

text \<open>
  \<^verbatim>\<open>brandsMapping[k]\<close>: the own property \<open>k\<close> when there is one, and otherwise what the
  prototype chain holds under \<open>k\<close>. An array has its elements under their indices and its
  length under \<^verbatim>\<open>length\<close>. The property names of \<^verbatim>\<open>Array.prototype\<close> depend on the edition
  of the language and are a parameter, \<open>P\<close>; theorems hold for every value of it.
\<close>

definition obj_get :: "ustring list \<Rightarrow> BrandsMapping \<Rightarrow> ustring \<Rightarrow> jsval" where
  "obj_get P obj k =
     (case map_of (own obj) k of
        Some v \<Rightarrow> Arr v
      | None \<Rightarrow>
          (case proto obj of
             None \<Rightarrow> if k \<in> set object_prototype_names then Inherited k else Undefined
           | Some arr \<Rightarrow>
               if k = proto_name then Arr arr
               else if is_array_index k \<and> index_value k < length arr then Str (arr ! index_value k)
               else if k = ascii ''length'' then Num (length arr)
               else if k \<in> set P \<or> k \<in> set object_prototype_names then Inherited k
               else Undefined))"

text \<open>
  The object \<^verbatim>\<open>canonicalLookup\<close>, whose values are strings: an assignment to \<^verbatim>\<open>__proto__\<close>
  does nothing, and the prototype stays \<^verbatim>\<open>Object.prototype\<close>. \<^verbatim>\<open>canonicalLookup[k]\<close> gives
  the own property \<open>k\<close> when there is one, and otherwise what \<^verbatim>\<open>Object.prototype\<close> holds
  under \<open>k\<close>.
\<close>

definition lookup_set :: "ustring \<Rightarrow> ustring \<Rightarrow> ustring properties \<Rightarrow> ustring properties" where
  "lookup_set k v obj = (if k = proto_name then obj else AList.update k v obj)"

definition lookup_get :: "ustring properties \<Rightarrow> ustring \<Rightarrow> jsval" where
  "lookup_get obj k =
     (case map_of obj k of
        Some v \<Rightarrow> Str v
      | None \<Rightarrow> if k \<in> set object_prototype_names then Inherited k else Undefined)"

section \<open>Graph builder: \<^verbatim>\<open>getBrandsMapping\<close>\<close>

text \<open>One row of \<^verbatim>\<open>brandConnections.json\<close>.\<close>

record brand_connection =
  manufacturer_p1 :: ustring
  manufacturers_p2 :: ustring

text \<open>
  \<^verbatim>\<open>if (!brandMap.has(b)) brandMap.set(b, new Set())\<close> and \<^verbatim>\<open>brandMap.get(a)!.add(b)\<close>.
  In the source both keys have been initialised when \<^verbatim>\<open>get\<close> is called (lemma
  \<open>link_keys\<close> below), so \<^verbatim>\<open>get\<close> never returns \<^verbatim>\<open>undefined\<close> there.
\<close>

definition init_key :: "ustring \<Rightarrow> brand_map \<Rightarrow> brand_map" where
  "init_key b m = (if map_has m b then m else m @ [(b, [])])"

definition add_related :: "ustring \<Rightarrow> ustring \<Rightarrow> brand_map \<Rightarrow> brand_map" where
  "add_related a b m = AList.map_entry a (set_add b) m"

definition link :: "ustring \<Rightarrow> ustring \<Rightarrow> brand_map \<Rightarrow> brand_map" where
  "link brand1 brand2 m = add_related brand2 brand1 (add_related brand1 brand2 (init_key brand2 m))"

definition brand2Array :: "unicode \<Rightarrow> brand_connection \<Rightarrow> ustring list" where
  "brand2Array U c = map trim (split 59 (toLowerCase U (manufacturers_p2 c)))"

definition add_connection :: "unicode \<Rightarrow> brand_connection \<Rightarrow> brand_map \<Rightarrow> brand_map" where
  "add_connection U c m =
     (let brand1 = toLowerCase U (manufacturer_p1 c)
      in fold (link brand1) (brand2Array U c) (init_key brand1 m))"

definition brandMap :: "unicode \<Rightarrow> brand_connection list \<Rightarrow> brand_map" where
  "brandMap U connections = fold (add_connection U) connections []"

definition getBrandsMapping :: "unicode \<Rightarrow> brand_connection list \<Rightarrow> BrandsMapping" where
  "getBrandsMapping U connections =
     fold (\<lambda>kv obj. obj_set (fst kv) (snd kv) obj) (brandMap U connections)
       \<lparr>own = [], proto = None\<rparr>"

text \<open>
  \<open>graph[a]\<close>: the members of the array that the read \<^verbatim>\<open>brandsMapping[a]\<close> gives, none when
  it gives no array.
\<close>

definition neighbours :: "ustring list \<Rightarrow> BrandsMapping \<Rightarrow> ustring \<Rightarrow> ustring set" where
  "neighbours P g a = (case obj_get P g a of Arr xs \<Rightarrow> set xs | _ \<Rightarrow> {})"

section \<open>Canonical lookup builder: \<^verbatim>\<open>buildCanonicalLookup\<close>\<close>

text \<open>
  \<^verbatim>\<open>arr.reduce((shortest, current) => current.length < shortest.length ? current : shortest)\<close>
  has no initial value: on an empty array it throws a \<^verbatim>\<open>TypeError\<close>.
\<close>

datatype error = TypeError

definition ignoreBrandsList :: "ustring list" where
  "ignoreBrandsList = [ascii ''bio'', ascii ''neb'']"

definition shorter :: "ustring \<Rightarrow> ustring \<Rightarrow> ustring" where
  "shorter shortest current = (if length current < length shortest then current else shortest)"

definition reduce_shortest :: "ustring list \<Rightarrow> error + ustring" where
  "reduce_shortest arr = (case arr of [] \<Rightarrow> Inl TypeError | x # xs \<Rightarrow> Inr (foldl shorter x xs))"

definition filteredBrands :: "unicode \<Rightarrow> ustring list \<Rightarrow> ustring list" where
  "filteredBrands U relatedBrands =
     filter (\<lambda>b. toLowerCase U b \<notin> set ignoreBrandsList) relatedBrands"

definition canonicalBrand :: "unicode \<Rightarrow> ustring list \<Rightarrow> error + ustring" where
  "canonicalBrand U relatedBrands =
     (if length (filteredBrands U relatedBrands) > 0
      then reduce_shortest (filteredBrands U relatedBrands)
      else reduce_shortest relatedBrands)"

text \<open>The inner loop: every brand of the list is mapped to the label chosen for the list.\<close>

definition map_to_canonical ::
  "unicode \<Rightarrow> ustring \<Rightarrow> ustring list \<Rightarrow> ustring properties \<Rightarrow> ustring properties" where
  "map_to_canonical U canonical relatedBrands lookup =
     fold (\<lambda>brand l. lookup_set (toLowerCase U brand) (toLowerCase U canonical) l)
       relatedBrands lookup"

fun canonical_loop ::
  "unicode \<Rightarrow> (ustring \<times> ustring list) list \<Rightarrow> ustring properties
     \<Rightarrow> error + ustring properties" where
  "canonical_loop U [] lookup = Inr lookup"
| "canonical_loop U (entry # entries) lookup =
     (case canonicalBrand U (snd entry) of
        Inl e \<Rightarrow> Inl e
      | Inr canonical \<Rightarrow> canonical_loop U entries (map_to_canonical U canonical (snd entry) lookup))"

definition buildCanonicalLookup ::
  "unicode \<Rightarrow> BrandsMapping \<Rightarrow> error + ustring properties" where
  "buildCanonicalLookup U brandsMapping = canonical_loop U (object_entries (own brandsMapping)) []"

text \<open>
  \<open>canonical(a)\<close>: what the read \<^verbatim>\<open>canonicalLookup[a]\<close> gives on the lookup built from the
  rows; it is a string exactly when the lookup has an entry of its own for \<open>a\<close>.
\<close>

definition canonical_of :: "unicode \<Rightarrow> brand_connection list \<Rightarrow> ustring \<Rightarrow> jsval" where
  "canonical_of U connections a =
     (case buildCanonicalLookup U (getBrandsMapping U connections) of
        Inl e \<Rightarrow> Undefined
      | Inr lookup \<Rightarrow> lookup_get lookup a)"

section \<open>Regular expressions of the matcher\<close>

text \<open>
  The patterns of \<^verbatim>\<open>brands.ts\<close> are built from anchors, \<^verbatim>\<open>\b\<close>, the classes \<^verbatim>\<open>\s\<close>,
  \<^verbatim>\<open>\S\<close> and \<^verbatim>\<open>.\<close> (also under \<^verbatim>\<open>*\<close> and \<^verbatim>\<open>+\<close>), literal characters, sequence and
  alternation, all with the flag \<^verbatim>\<open>i\<close>. \<open>matches U s r i j\<close> says that \<open>r\<close> matches the
  code units of \<open>s\<close> from position \<open>i\<close> up to position \<open>j\<close>; \<^verbatim>\<open>RegExp.prototype.test\<close>
  asks for a match between any two positions. None of the patterns has a back reference or
  a look-around, so the verdict of \<^verbatim>\<open>test\<close> does not depend on the order of backtracking.
\<close>

datatype char_class = AnyChar | Space | NonSpace

datatype regex =
    RLit nat
  | RClass char_class
  | RBol
  | REol
  | RWordB
  | RStar char_class
  | RPlus char_class
  | RSeq regex regex
  | RAlt regex regex
  | REmpty

text \<open>
  \<open>Canonicalize\<close> of the language standard for a pattern with the flag \<^verbatim>\<open>i\<close> and without
  the flag \<^verbatim>\<open>u\<close>: the upper-case form when it is one code unit, except that a non-ASCII
  code unit never folds to an ASCII one.
\<close>

definition canonicalize :: "unicode \<Rightarrow> nat \<Rightarrow> nat" where
  "canonicalize U ch =
     (if ch < 128 then ascii_upper ch
      else (let cu = upper_unit U ch in if cu < 128 then ch else cu))"

definition in_class :: "char_class \<Rightarrow> nat \<Rightarrow> bool" where
  "in_class k c = (case k of AnyChar \<Rightarrow> \<not> is_line_terminator c
                           | Space \<Rightarrow> is_space c
                           | NonSpace \<Rightarrow> \<not> is_space c)"

definition is_word_at :: "ustring \<Rightarrow> nat \<Rightarrow> bool" where
  "is_word_at s i = (i < length s \<and> is_word_char (s ! i))"

definition word_boundary :: "ustring \<Rightarrow> nat \<Rightarrow> bool" where
  "word_boundary s i = ((0 < i \<and> is_word_at s (i - 1)) \<noteq> is_word_at s i)"

definition run_of :: "char_class \<Rightarrow> ustring \<Rightarrow> nat \<Rightarrow> nat \<Rightarrow> bool" where
  "run_of k s i j = (i \<le> j \<and> j \<le> length s \<and> list_all (in_class k) (take (j - i) (drop i s)))"

fun matches :: "unicode \<Rightarrow> ustring \<Rightarrow> regex \<Rightarrow> nat \<Rightarrow> nat \<Rightarrow> bool" where
  "matches U s (RLit c) i j = (j = Suc i \<and> i < length s \<and> canonicalize U (s ! i) = canonicalize U c)"
| "matches U s (RClass k) i j = (j = Suc i \<and> i < length s \<and> in_class k (s ! i))"
| "matches U s RBol i j = (j = i \<and> i = 0)"
| "matches U s REol i j = (j = i \<and> i = length s)"
| "matches U s RWordB i j = (j = i \<and> word_boundary s i)"
| "matches U s (RStar k) i j = run_of k s i j"
| "matches U s (RPlus k) i j = (i < j \<and> run_of k s i j)"
| "matches U s (RSeq a b) i j = list_ex (\<lambda>k. matches U s a i k \<and> matches U s b k j) [i..<Suc j]"
| "matches U s (RAlt a b) i j = (matches U s a i j \<or> matches U s b i j)"
| "matches U s REmpty i j = (j = i)"

definition test :: "unicode \<Rightarrow> regex \<Rightarrow> ustring \<Rightarrow> bool" where
  "test U r s =
     list_ex (\<lambda>i. list_ex (\<lambda>j. matches U s r i j) [i..<Suc (length s)]) [0..<Suc (length s)]"

text \<open>
  \<^verbatim>\<open>brand.replace(/[.*+?^${}()|[\]\\]/g, "\\$&")\<close> puts a backslash before every syntax
  character. \<open>atoms\<close> reads the escaped text back as the pattern compiler does: a backslash
  and a syntax character stand for that character, any other code unit for itself.
\<close>

definition syntax_character :: "nat \<Rightarrow> bool" where
  "syntax_character c = (c \<in> set (ascii ''.*+?^${}()|[]'') \<or> c = 92)"

definition escapeRegExp :: "ustring \<Rightarrow> ustring" where
  "escapeRegExp brand = concat (map (\<lambda>c. if syntax_character c then [92, c] else [c]) brand)"

fun atoms :: "ustring \<Rightarrow> regex" where
  "atoms [] = REmpty"
| "atoms [c] = RSeq (RLit c) REmpty"
| "atoms (c # d # ds) =
     (if c = 92 then RSeq (RLit d) (atoms ds) else RSeq (RLit c) (atoms (d # ds)))"

definition literal :: "ustring \<Rightarrow> regex" where
  "literal cs = foldr (\<lambda>c r. RSeq (RLit c) r) cs REmpty"

section \<open>Match-pattern compiler: \<^verbatim>\<open>buildBrandMatchCache\<close>\<close>

definition firstWordBrandValidationList :: "ustring list" where
  "firstWordBrandValidationList =
     map ascii [''rich'', ''rff'', ''flex'', ''ultra'', ''gum'', ''beauty'', ''orto'', ''free'',
                ''112'', ''kin'', ''happy'', ''HAPPY'']"

definition firstOrSecondWordBrandValidationList :: "ustring list" where
  "firstOrSecondWordBrandValidationList = map ascii [''heel'', ''contour'', ''nero'', ''rsv'']"

datatype position_check = First | FirstOrSecond

record BrandMatchCache =
  brand :: ustring
  pattern :: regex
  positionCheck :: "position_check option"

text \<open>
  The escaped brand, with the special case of the source: \<^verbatim>\<open>if (escapedBrand === "happy")
  escapedBrand = escapedBrand.toUpperCase()\<close>.
\<close>

definition escapedBrand :: "ustring \<Rightarrow> ustring" where
  "escapedBrand b =
     (let e = escapeRegExp b in if e = ascii ''happy'' then toUpperCase_ascii e else e)"

text \<open>
  The four pattern texts of the source, \<open>e\<close> standing for the escaped brand:
  \<^verbatim>\<open>^e(\b|\s|$)\<close>, \<^verbatim>\<open>^\S+\s+e(\b|\s|$)\<close>, \<^verbatim>\<open>\be\b\<close> and
  \<^verbatim>\<open>^(?:e\s|.*\se\s.*|.*\se)$\<close>.
\<close>

definition boundary_tail :: regex where
  "boundary_tail = RAlt RWordB (RAlt (RClass Space) REol)"

definition at_beginning_pattern :: "ustring \<Rightarrow> regex" where
  "at_beginning_pattern e = RSeq RBol (RSeq (atoms e) boundary_tail)"

definition at_second_pattern :: "ustring \<Rightarrow> regex" where
  "at_second_pattern e =
     RSeq RBol (RSeq (RPlus NonSpace) (RSeq (RPlus Space) (RSeq (atoms e) boundary_tail)))"

definition separate_term_pattern :: "ustring \<Rightarrow> regex" where
  "separate_term_pattern e = RSeq RWordB (RSeq (atoms e) RWordB)"

definition inside_title_pattern :: "ustring \<Rightarrow> regex" where
  "inside_title_pattern e =
     RSeq RBol
       (RSeq (RAlt (RSeq (atoms e) (RClass Space))
               (RAlt (RSeq (RStar AnyChar)
                       (RSeq (RClass Space) (RSeq (atoms e) (RSeq (RClass Space) (RStar AnyChar)))))
                     (RSeq (RStar AnyChar) (RSeq (RClass Space) (atoms e)))))
             REol)"

definition cache_entry :: "ustring \<Rightarrow> BrandMatchCache" where
  "cache_entry b =
     (let e = escapedBrand b in
      if b \<in> set firstWordBrandValidationList then
        \<lparr>brand = b, pattern = at_beginning_pattern e, positionCheck = Some First\<rparr>
      else if b \<in> set firstOrSecondWordBrandValidationList then
        \<lparr>brand = b, pattern = RAlt (at_beginning_pattern e) (at_second_pattern e),
         positionCheck = Some FirstOrSecond\<rparr>
      else
        \<lparr>brand = b, pattern = separate_term_pattern e, positionCheck = None\<rparr>)"

fun buildBrandMatchCache :: "ustring list \<Rightarrow> BrandMatchCache list" where
  "buildBrandMatchCache [] = []"
| "buildBrandMatchCache (b # brands) =
     (if b \<in> set ignoreBrandsList then buildBrandMatchCache brands
      else cache_entry b # buildBrandMatchCache brands)"

definition checkBrandMatch :: "unicode \<Rightarrow> ustring \<Rightarrow> BrandMatchCache \<Rightarrow> bool" where
  "checkBrandMatch U normalizedInput cacheEntry = test U (pattern cacheEntry) normalizedInput"

text \<open>
  The verdict of the compiled cache for one alias: an ignored alias has no entry, hence no
  match.
\<close>

definition cache_matches :: "unicode \<Rightarrow> ustring \<Rightarrow> ustring \<Rightarrow> bool" where
  "cache_matches U normalizedInput b =
     list_ex (checkBrandMatch U normalizedInput) (buildBrandMatchCache [b])"

section \<open>Title normalizer: \<^verbatim>\<open>normalizeInputIfAccentInsensitive\<close>\<close>

text \<open>
  The test \<^verbatim>\<open>/[U+0300-U+036F, U+00C0-U+017F]/.test(normalized)\<close> and the replacement
  \<^verbatim>\<open>normalized.replace(/[U+0300-U+036F]/g, "")\<close>, the ranges written with their code points.
\<close>

definition combining_mark :: "nat \<Rightarrow> bool" where
  "combining_mark c = (768 \<le> c \<and> c \<le> 879)"

definition hasAccents :: "ustring \<Rightarrow> bool" where
  "hasAccents s = list_ex (\<lambda>c. combining_mark c \<or> (192 \<le> c \<and> c \<le> 383)) s"

definition strip_marks :: "ustring \<Rightarrow> ustring" where
  "strip_marks s = filter (\<lambda>c. \<not> combining_mark c) s"

text \<open>
  The computation behind the cache; it is also the whole of the function in the earlier
  variants of the file, which have no cache.
\<close>

definition normalize_uncached :: "unicode \<Rightarrow> ustring \<Rightarrow> ustring" where
  "normalize_uncached U input =
     (let normalized = normalizeNFD U input
      in if hasAccents normalized then strip_marks normalized else input)"

text \<open>The module-level \<^verbatim>\<open>normalizationCache\<close> is threaded through as state.\<close>

type_synonym normalization_cache = "ustring \<rightharpoonup> ustring"

definition normalizeInputIfAccentInsensitive ::
  "unicode \<Rightarrow> normalization_cache \<Rightarrow> ustring \<Rightarrow> ustring \<times> normalization_cache" where
  "normalizeInputIfAccentInsensitive U cache input =
     (case cache input of
        Some cached \<Rightarrow> (cached, cache)
      | None \<Rightarrow> (let result = normalize_uncached U input in (result, cache(input \<mapsto> result))))"

section \<open>The earlier matcher: \<^verbatim>\<open>checkBrandIsSeparateTerm\<close>\<close>

text \<open>The variant of \<^verbatim>\<open>brands.ts\<close>, lines 553 to 589: a position list replaces the generic test.\<close>

definition checkBrandIsSeparateTerm :: "unicode \<Rightarrow> ustring \<Rightarrow> ustring \<Rightarrow> bool" where
  "checkBrandIsSeparateTerm U input b =
     (let e = escapedBrand b;
          input' = normalize_uncached U input;
          atBeginningOrEndOrMiddle = test U (inside_title_pattern e) input'
      in if b \<in> set firstWordBrandValidationList then test U (at_beginning_pattern e) input'
         else if b \<in> set firstOrSecondWordBrandValidationList then
           (test U (at_beginning_pattern e) input' \<or> test U (at_second_pattern e) input')
         else (atBeginningOrEndOrMiddle \<or> test U (separate_term_pattern e) input'))"

text \<open>The variant of the unnamed file, lines 98 to 133: a position list is a gate before the generic test.\<close>

definition checkBrandIsSeparateTerm_gated :: "unicode \<Rightarrow> ustring \<Rightarrow> ustring \<Rightarrow> bool" where
  "checkBrandIsSeparateTerm_gated U input b =
     (let e = escapedBrand b;
          input' = normalize_uncached U input;
          atBeginningOrEndOrMiddle = test U (inside_title_pattern e) input'
      in if b \<in> set firstWordBrandValidationList \<and> \<not> test U (at_beginning_pattern e) input'
         then False
         else if b \<in> set firstOrSecondWordBrandValidationList
                 \<and> \<not> test U (at_beginning_pattern e) input' \<and> \<not> test U (at_second_pattern e) input'
         then False
         else (atBeginningOrEndOrMiddle \<or> test U (separate_term_pattern e) input'))"

section \<open>Brand matcher and disambiguator: \<^verbatim>\<open>assignBrandIfKnown\<close>\<close>

text \<open>One item of \<^verbatim>\<open>pharmacyItems.json\<close>, and one record of the results file.\<close>

record pharmacy_item =
  title :: ustring
  source_id :: ustring

record result_record =
  product :: ustring
  matchedBrands :: "ustring list"
  assignedBrand :: "jsval option"
  priorityBrand :: "ustring option"

text \<open>The flat set of all brands: every member of every neighbour list, in iteration order.\<close>

definition allBrands_of :: "BrandsMapping \<Rightarrow> ustring list" where
  "allBrands_of brandsMapping =
     fold (\<lambda>brands acc. fold set_add brands acc) (object_values (own brandsMapping)) []"

text \<open>
  \<^verbatim>\<open>brandMatchCache.sort((a, b) => b.brand.length - a.brand.length)\<close>: a stable sort, longer
  brands first.
\<close>

fun insert_by_length :: "BrandMatchCache \<Rightarrow> BrandMatchCache list \<Rightarrow> BrandMatchCache list" where
  "insert_by_length e [] = [e]"
| "insert_by_length e (x # xs) =
     (if length (brand x) < length (brand e) then e # x # xs else x # insert_by_length e xs)"

definition sort_by_length :: "BrandMatchCache list \<Rightarrow> BrandMatchCache list" where
  "sort_by_length es = foldl (\<lambda>acc e. insert_by_length e acc) [] es"

text \<open>
  The pre-computed network of a brand: its lower-cased neighbours, then the brand itself.
  \<^verbatim>\<open>brandsMapping[brand.toLowerCase()] || []\<close> keeps any truthy value, and \<^verbatim>\<open>related.forEach\<close>
  throws a \<^verbatim>\<open>TypeError\<close> when that value is no array: strings, numbers, functions and
  \<^verbatim>\<open>Object.prototype\<close> have no \<^verbatim>\<open>forEach\<close>.
\<close>

definition brand_network ::
  "unicode \<Rightarrow> ustring list \<Rightarrow> BrandsMapping \<Rightarrow> ustring \<Rightarrow> error + ustring list" where
  "brand_network U P brandsMapping b =
     (let v = obj_get P brandsMapping (toLowerCase U b)
      in case (if truthy v then v else Arr []) of
           Arr related \<Rightarrow>
             Inr (set_add (toLowerCase U b)
                    (fold (\<lambda>r network. set_add (toLowerCase U r) network) related []))
         | _ \<Rightarrow> Inl TypeError)"

fun brandNetworkCache ::
  "unicode \<Rightarrow> ustring list \<Rightarrow> BrandsMapping \<Rightarrow> ustring list \<Rightarrow> (ustring \<times> ustring list) list
     \<Rightarrow> error + (ustring \<times> ustring list) list" where
  "brandNetworkCache U P brandsMapping [] cache = Inr cache"
| "brandNetworkCache U P brandsMapping (b # allBrands) cache =
     (case brand_network U P brandsMapping b of
        Inl e \<Rightarrow> Inl e
      | Inr network \<Rightarrow>
          brandNetworkCache U P brandsMapping allBrands
            (AList.update (toLowerCase U b) network cache))"

text \<open>The loop over the cache entries; \<^verbatim>\<open>matchedBrandSet\<close> holds the members of \<^verbatim>\<open>matchedBrands\<close>.\<close>

definition match_step :: "unicode \<Rightarrow> ustring \<Rightarrow> BrandMatchCache \<Rightarrow> ustring list \<Rightarrow> ustring list" where
  "match_step U normalizedTitle cacheEntry matched =
     (if brand cacheEntry \<in> set matched then matched
      else if checkBrandMatch U normalizedTitle cacheEntry then matched @ [brand cacheEntry]
      else matched)"

definition matched_brands :: "unicode \<Rightarrow> ustring \<Rightarrow> BrandMatchCache list \<Rightarrow> ustring list" where
  "matched_brands U normalizedTitle brandMatchCache =
     fold (match_step U normalizedTitle) brandMatchCache []"

definition allConnectedBrands ::
  "unicode \<Rightarrow> (ustring \<times> ustring list) list \<Rightarrow> ustring list \<Rightarrow> ustring list" where
  "allConnectedBrands U networkCache matched =
     fold (\<lambda>b acc. case map_of networkCache (toLowerCase U b) of
                      None \<Rightarrow> acc
                    | Some network \<Rightarrow> fold set_add network acc)
       matched []"

text \<open>
  The scan for the earliest brand. The state is \<^verbatim>\<open>earliestIndex\<close> (\<open>None\<close> for
  \<^verbatim>\<open>Infinity\<close>) and \<^verbatim>\<open>priorityBrand\<close> (\<open>None\<close> for \<^verbatim>\<open>null\<close>).
\<close>

definition scan_step ::
  "ustring \<Rightarrow> ustring \<Rightarrow> nat option \<times> ustring option \<Rightarrow> nat option \<times> ustring option" where
  "scan_step lowerTitle b st =
     (case indexOf lowerTitle b of
        None \<Rightarrow> st
      | Some index \<Rightarrow>
          (if (case fst st of None \<Rightarrow> True | Some earliestIndex \<Rightarrow> index < earliestIndex)
           then (Some index, Some b) else st))"

definition earliest_brand :: "ustring \<Rightarrow> ustring list \<Rightarrow> ustring option" where
  "earliest_brand lowerTitle candidates = snd (fold (scan_step lowerTitle) candidates (None, None))"

text \<open>
  \<^verbatim>\<open>if (!priorityBrand) priorityBrand = matchedBrands[0].toLowerCase()\<close>: the test holds for
  \<^verbatim>\<open>null\<close> and for the empty string. \<^verbatim>\<open>canonicalLookup[priorityBrand] || priorityBrand\<close>
  keeps any truthy value that the read gives.
\<close>

definition priority_or_first :: "unicode \<Rightarrow> ustring option \<Rightarrow> ustring \<Rightarrow> ustring" where
  "priority_or_first U found first =
     (case found of None \<Rightarrow> toLowerCase U first
                  | Some p \<Rightarrow> if p = [] then toLowerCase U first else p)"

definition lookup_or_self :: "ustring properties \<Rightarrow> ustring \<Rightarrow> jsval" where
  "lookup_or_self canonicalLookup p =
     (let main = lookup_get canonicalLookup p in if truthy main then main else Str p)"

text \<open>The body of the loop over the products, for a title already normalized.\<close>

definition assign_title ::
  "unicode \<Rightarrow> ustring properties \<Rightarrow> BrandMatchCache list \<Rightarrow> (ustring \<times> ustring list) list
     \<Rightarrow> ustring \<Rightarrow> ustring \<Rightarrow> result_record" where
  "assign_title U canonicalLookup brandMatchCache networkCache rawTitle normalizedTitle =
     (let lowerTitle = toLowerCase U normalizedTitle;
          matched = matched_brands U normalizedTitle brandMatchCache
      in case matched of
           [] \<Rightarrow> \<lparr>product = rawTitle, matchedBrands = matched, assignedBrand = None,
                   priorityBrand = None\<rparr>
         | first # others \<Rightarrow>
             (let connected = allConnectedBrands U networkCache matched;
                  priority = priority_or_first U (earliest_brand lowerTitle connected) first
              in \<lparr>product = rawTitle, matchedBrands = matched,
                  assignedBrand = Some (lookup_or_self canonicalLookup priority),
                  priorityBrand = Some priority\<rparr>))"

fun process_products ::
  "unicode \<Rightarrow> ustring properties \<Rightarrow> BrandMatchCache list \<Rightarrow> (ustring \<times> ustring list) list
     \<Rightarrow> normalization_cache \<Rightarrow> pharmacy_item list \<Rightarrow> result_record list" where
  "process_products U canonicalLookup brandMatchCache networkCache cache [] = []"
| "process_products U canonicalLookup brandMatchCache networkCache cache (p # products) =
     (case normalizeInputIfAccentInsensitive U cache (title p) of
        (normalizedTitle, cache') \<Rightarrow>
          assign_title U canonicalLookup brandMatchCache networkCache (title p) normalizedTitle
          # process_products U canonicalLookup brandMatchCache networkCache cache' products)"

text \<open>
  The whole run. Two steps can throw: the \<^verbatim>\<open>reduce\<close> of the lookup builder and the
  \<^verbatim>\<open>forEach\<close> of the network loop. The results are the array handed to \<^verbatim>\<open>JSON.stringify\<close>.
\<close>

definition assignBrandIfKnown ::
  "unicode \<Rightarrow> ustring list \<Rightarrow> brand_connection list \<Rightarrow> pharmacy_item list
     \<Rightarrow> error + result_record list" where
  "assignBrandIfKnown U P connections items =
     (let brandsMapping = getBrandsMapping U connections
      in case buildCanonicalLookup U brandsMapping of
           Inl e \<Rightarrow> Inl e
         | Inr canonicalLookup \<Rightarrow>
             (let allBrands = allBrands_of brandsMapping;
                  brandMatchCache = sort_by_length (buildBrandMatchCache allBrands)
              in case brandNetworkCache U P brandsMapping allBrands [] of
                   Inl e \<Rightarrow> Inl e
                 | Inr networkCache \<Rightarrow>
                     Inr (process_products U canonicalLookup brandMatchCache networkCache
                            Map.empty items)))"

text \<open>
  The candidate set of a run for a matched list, and the title as the scan reads it:
  normalized, then lower-cased.
\<close>

definition run_candidates ::
  "unicode \<Rightarrow> ustring list \<Rightarrow> brand_connection list \<Rightarrow> ustring list \<Rightarrow> ustring list" where
  "run_candidates U P connections matched =
     (case brandNetworkCache U P (getBrandsMapping U connections)
             (allBrands_of (getBrandsMapping U connections)) [] of
        Inl e \<Rightarrow> []
      | Inr networkCache \<Rightarrow> allConnectedBrands U networkCache matched)"

definition lower_title :: "unicode \<Rightarrow> ustring \<Rightarrow> ustring" where
  "lower_title U rawTitle = toLowerCase U (normalize_uncached U rawTitle)"

section \<open>The notions of the specification\<close>

text \<open>
  The specification's choice, in its words: the shortest string of the candidate pool, the
  first encountered among those of equal length; the pool is the list without the ignored
  aliases, or the full list when every alias of it is ignored.
\<close>

definition spec_shortest :: "ustring list \<Rightarrow> ustring option" where
  "spec_shortest pool = find (\<lambda>x. list_all (\<lambda>y. length x \<le> length y) pool) pool"

definition spec_pool :: "unicode \<Rightarrow> ustring list \<Rightarrow> ustring list" where
  "spec_pool U relatedBrands =
     (if list_all (\<lambda>b. toLowerCase U b \<in> set ignoreBrandsList) relatedBrands then relatedBrands
      else filter (\<lambda>b. toLowerCase U b \<notin> set ignoreBrandsList) relatedBrands)"

text \<open>
  The specification speaks of the whitespace-delimited tokens of a title. In its words: the
  title is cut at every white-space character and the empty pieces are dropped.
\<close>

fun spec_pieces :: "ustring \<Rightarrow> ustring list" where
  "spec_pieces [] = [[]]"
| "spec_pieces (c # cs) =
     (if is_space c then [] # spec_pieces cs
      else (case spec_pieces cs of
              [] \<Rightarrow> [[c]]
            | w # ws \<Rightarrow> (c # w) # ws))"

definition spec_tokens :: "ustring \<Rightarrow> ustring list" where
  "spec_tokens t = filter (\<lambda>w. w \<noteq> []) (spec_pieces t)"

definition spec_first_token :: "ustring \<Rightarrow> ustring" where
  "spec_first_token t = (case spec_tokens t of [] \<Rightarrow> [] | w # ws \<Rightarrow> w)"

text \<open>
  The specification's priority alias, in its words: the candidate whose first occurrence in
  the title has the smallest index, the first scanned among candidates of equal index; none
  when no candidate occurs.
\<close>

definition occurs_no_later :: "ustring \<Rightarrow> ustring \<Rightarrow> ustring \<Rightarrow> bool" where
  "occurs_no_later lowerTitle c d =
     (case indexOf lowerTitle c of
        None \<Rightarrow> False
      | Some i \<Rightarrow> (case indexOf lowerTitle d of None \<Rightarrow> True | Some j \<Rightarrow> i \<le> j))"

definition spec_leftmost :: "ustring \<Rightarrow> ustring list \<Rightarrow> ustring option" where
  "spec_leftmost lowerTitle candidates =
     find (\<lambda>c. list_all (occurs_no_later lowerTitle c) candidates) candidates"

section \<open>A sample of the Unicode data\<close>

text \<open>
  Examples on concrete input need a value for the parameter. \<open>ucd_sample\<close> is the Unicode Character
  Database restricted to ASCII and the code units U+00F8 (o with stroke), U+034F (combining
  grapheme joiner), U+0591 (a Hebrew accent) and U+1DC0 (combining dotted grave accent):
  none of them has a canonical decomposition, so \<^verbatim>\<open>normalize("NFD")\<close> only applies the
  canonical ordering, which sorts every run of code units of non-zero combining class by
  class; the classes are 220 for U+0591, 230 for U+1DC0 and 0 for the others. None of the four
  changes under \<^verbatim>\<open>toLowerCase\<close>, and U+00F8 alone has an upper-case form, U+00D8.
\<close>

definition ccc_sample :: "nat \<Rightarrow> nat" where
  "ccc_sample c = (if c = 1425 then 220 else if c = 7616 then 230 else 0)"

fun insert_mark :: "nat \<Rightarrow> ustring \<Rightarrow> ustring" where
  "insert_mark c [] = [c]"
| "insert_mark c (d # ds) =
     (if ccc_sample d < ccc_sample c \<and> 0 < ccc_sample d then d # insert_mark c ds
      else c # d # ds)"

definition canonical_order :: "ustring \<Rightarrow> ustring" where
  "canonical_order s = foldr insert_mark s []"

definition ucd_sample :: unicode where
  "ucd_sample = \<lparr>lower_str = map ascii_lower, nfd_str = canonical_order,
                  upper_unit = (\<lambda>c. if c = 248 then 216 else c)\<rparr>"

text \<open>
  A value for the parameter \<open>P\<close>: the property names of \<^verbatim>\<open>Array.prototype\<close> in the 2023
  edition of the language.
\<close>

definition array_prototype_sample :: "ustring list" where
  "array_prototype_sample =
     map ascii [''length'', ''constructor'', ''at'', ''concat'', ''copyWithin'', ''fill'', ''find'',
                ''findIndex'', ''findLast'', ''findLastIndex'', ''lastIndexOf'', ''pop'', ''push'',
                ''reverse'', ''shift'', ''unshift'', ''slice'', ''sort'', ''splice'', ''includes'',
                ''indexOf'', ''join'', ''keys'', ''entries'', ''values'', ''forEach'', ''filter'',
                ''flat'', ''flatMap'', ''map'', ''every'', ''some'', ''reduce'', ''reduceRight'',
                ''toLocaleString'', ''toString'', ''toReversed'', ''toSorted'', ''toSpliced'',
                ''with'']"

section \<open>Notions used in the statements and proofs\<close>

text \<open>The pairs a row relates: its lower-cased primary alias with each trimmed secondary.\<close>

definition row_edge :: "unicode \<Rightarrow> brand_connection \<Rightarrow> ustring \<Rightarrow> ustring \<Rightarrow> bool" where
  "row_edge U c a b =
     ((a = toLowerCase U (manufacturer_p1 c) \<and> b \<in> set (brand2Array U c))
      \<or> (b = toLowerCase U (manufacturer_p1 c) \<and> a \<in> set (brand2Array U c)))"

text \<open>
  \<open>adj m a\<close>: the set that the \<^verbatim>\<open>Map\<close> holds for \<open>a\<close>; \<open>no_isolated m\<close>: every key of
  the \<^verbatim>\<open>Map\<close> has a neighbour.
\<close>

definition adj :: "brand_map \<Rightarrow> ustring \<Rightarrow> ustring set" where
  "adj m a = (case map_of m a of None \<Rightarrow> {} | Some xs \<Rightarrow> set xs)"

definition no_isolated :: "brand_map \<Rightarrow> bool" where
  "no_isolated m = (\<forall>k. map_has m k \<longrightarrow> adj m k \<noteq> {})"

text \<open>
  \<open>label_of U entries a\<close>: the label, lower-cased, that the specification's choice gives for
  the last of the neighbour lists \<open>entries\<close> that holds an alias whose lower-cased form is
  \<open>a\<close>; none when no list holds one.
\<close>

definition label_of :: "unicode \<Rightarrow> (ustring \<times> ustring list) list \<Rightarrow> ustring \<Rightarrow> ustring option" where
  "label_of U entries a =
     (case find (\<lambda>e. a \<in> set (map (toLowerCase U) (snd e))) (rev entries) of
        None \<Rightarrow> None
      | Some e \<Rightarrow> map_option (toLowerCase U) (spec_shortest (spec_pool U (snd e))))"

text \<open>\<open>lit_at U s e i\<close>: the code units of \<open>e\<close> stand in \<open>s\<close> at position \<open>i\<close>, letter case ignored.\<close>

definition lit_at :: "unicode \<Rightarrow> ustring \<Rightarrow> ustring \<Rightarrow> nat \<Rightarrow> bool" where
  "lit_at U s e i = (map (canonicalize U) (take (length e) (drop i s)) = map (canonicalize U) e)"

text \<open>Every entry of the cache is what the computation gives for its key.\<close>

definition cache_consistent :: "unicode \<Rightarrow> normalization_cache \<Rightarrow> bool" where
  "cache_consistent U cache =
     (\<forall>input result. cache input = Some result \<longrightarrow> result = normalize_uncached U input)"

text \<open>
  \<open>pattern_text b\<close> is the text the patterns of \<open>b\<close> look for; \<open>tail_ok s n\<close> says that
  \<^verbatim>\<open>(\b|\s|$)\<close> can match at position \<open>n\<close>.
\<close>

definition pattern_text :: "ustring \<Rightarrow> ustring" where
  "pattern_text b = (if b = ascii ''happy'' then ascii ''HAPPY'' else b)"

definition tail_ok :: "ustring \<Rightarrow> nat \<Rightarrow> bool" where
  "tail_ok s n = (word_boundary s n \<or> (n < length s \<and> is_space (s ! n)) \<or> n = length s)"

text \<open>\<open>inside_ok U s l\<close>: what \<^verbatim>\<open>^(?:l\s|.*\sl\s.*|.*\sl)$\<close> accepts.\<close>

definition inside_ok :: "unicode \<Rightarrow> ustring \<Rightarrow> ustring \<Rightarrow> bool" where
  "inside_ok U s l =
     ((lit_at U s l 0 \<and> length s = Suc (length l) \<and> is_space (s ! length l))
      \<or> (\<exists>p. run_of AnyChar s 0 p \<and> p < length s \<and> is_space (s ! p) \<and> lit_at U s l (Suc p)
            \<and> Suc p + length l < length s \<and> is_space (s ! (Suc p + length l))
            \<and> run_of AnyChar s (Suc (Suc p + length l)) (length s))
      \<or> (\<exists>p. run_of AnyChar s 0 p \<and> p < length s \<and> is_space (s ! p) \<and> lit_at U s l (Suc p)
            \<and> Suc p + length l = length s))"

text \<open>\<open>same_text t l\<close>: \<open>t\<close> is the ASCII text \<open>l\<close> up to the case of its letters.\<close>

definition same_text :: "ustring \<Rightarrow> ustring \<Rightarrow> bool" where
  "same_text t l = (is_ascii t \<and> map ascii_upper t = map ascii_upper l)"

text \<open>
  \<open>word_brand b\<close>: \<open>b\<close> is not empty and made of letters, digits and underscores only.
  \<open>edge_word b\<close>: \<open>b\<close> is not empty and its first and its last code unit are such characters.
\<close>

definition word_brand :: "ustring \<Rightarrow> bool" where
  "word_brand b = (b \<noteq> [] \<and> list_all is_word_char b)"

definition edge_word :: "ustring \<Rightarrow> bool" where
  "edge_word b = (b \<noteq> [] \<and> is_word_char (hd b) \<and> is_word_char (last b))"

text \<open>\<open>lowered s\<close>: \<open>s\<close> is ASCII text without an upper-case letter.\<close>

definition lowered :: "ustring \<Rightarrow> bool" where
  "lowered s = list_all (\<lambda>c. c < 128 \<and> ascii_lower c = c) s"

text \<open>The state of the scan after a prefix of the candidates.\<close>

definition scan_ok :: "ustring \<Rightarrow> ustring list \<Rightarrow> nat option \<times> ustring option \<Rightarrow> bool" where
  "scan_ok t xs st =
     (case snd st of
        None \<Rightarrow> fst st = None \<and> (\<forall>x \<in> set xs. indexOf t x = None)
      | Some c \<Rightarrow> fst st = indexOf t c \<and> indexOf t c \<noteq> None
          \<and> (\<exists>k < length xs. xs ! k = c
                \<and> (\<forall>m < length xs. occurs_no_later t c (xs ! m))
                \<and> (\<forall>m < k. \<not> occurs_no_later t (xs ! m) c)))"

section \<open>Facts\<close>

subsection \<open>Facts about the builder\<close>

lemma split_not_Nil: "split sep s \<noteq> []"
  by (induction s) (auto split: list.splits)

lemma split_Nil: "split sep [] = [[]]"
  by simp

lemma map_of_init_key:
  "map_of (init_key b m) = (if map_has m b then map_of m else (map_of m)(b \<mapsto> []))"
  by (auto simp: init_key_def map_has_def map_of_append fun_eq_iff map_add_def split: option.splits)

lemma map_has_init_key: "map_has (init_key b m) k = (k = b \<or> map_has m k)"
  by (auto simp: map_has_def map_of_init_key)

lemma map_has_add_related: "map_has (add_related a b m) k = map_has m k"
  by (auto simp: map_has_def add_related_def AList.map_of_map_entry split: option.splits)

lemma map_has_link: "map_has (link a b m) k = (k = b \<or> map_has m k)"
  by (simp add: link_def map_has_add_related map_has_init_key)

lemma link_keys: "map_has m a \<Longrightarrow> map_has (init_key b m) a \<and> map_has (init_key b m) b"
  by (simp add: map_has_init_key)

lemma adj_init_key: "adj (init_key b m) a = adj m a"
  by (auto simp: adj_def map_of_init_key map_has_def split: option.splits)

lemma adj_add_related:
  "adj (add_related a b m) x = (if x = a \<and> map_has m a then insert b (adj m x) else adj m x)"
  by (auto simp: adj_def add_related_def AList.map_of_map_entry map_has_def set_add_def
      split: option.splits)

lemma adj_link:
  "map_has m a \<Longrightarrow>
   y \<in> adj (link a b m) x \<longleftrightarrow> y \<in> adj m x \<or> (x = a \<and> y = b) \<or> (x = b \<and> y = a)"
  by (auto simp: link_def adj_add_related adj_init_key map_has_add_related map_has_init_key)

lemma fold_link:
  "map_has m a \<Longrightarrow>
   map_has (fold (link a) bs m) k = (k \<in> set bs \<or> map_has m k)
   \<and> (y \<in> adj (fold (link a) bs m) x \<longleftrightarrow>
        y \<in> adj m x \<or> (x = a \<and> y \<in> set bs) \<or> (y = a \<and> x \<in> set bs))"
proof (induction bs arbitrary: m)
  case Nil
  then show ?case by simp
next
  case (Cons b bs)
  have h: "map_has (link a b m) a" using Cons.prems by (simp add: map_has_link)
  show ?case
    using Cons.IH [OF h] Cons.prems by (auto simp: map_has_link adj_link)
qed

lemma adj_add_connection:
  "y \<in> adj (add_connection U c m) x \<longleftrightarrow> y \<in> adj m x \<or> row_edge U c x y"
proof -
  have h: "map_has (init_key (toLowerCase U (manufacturer_p1 c)) m) (toLowerCase U (manufacturer_p1 c))"
    by (simp add: map_has_init_key)
  show ?thesis
    using fold_link [OF h, where y = y and bs = "brand2Array U c" and x = x]
    by (auto simp: add_connection_def Let_def adj_init_key row_edge_def)
qed

lemma adj_fold_add_connection:
  "y \<in> adj (fold (add_connection U) cs m) x \<longleftrightarrow> y \<in> adj m x \<or> (\<exists>c \<in> set cs. row_edge U c x y)"
  by (induction cs arbitrary: m) (auto simp: adj_add_connection)

lemma adj_Nil: "adj [] x = {}"
  by (simp add: adj_def)

lemma adj_brandMap: "y \<in> adj (brandMap U cs) x \<longleftrightarrow> (\<exists>c \<in> set cs. row_edge U c x y)"
  by (simp add: brandMap_def adj_fold_add_connection adj_Nil)

lemma update_fresh: "k \<notin> fst ` set al \<Longrightarrow> AList.update k v al = al @ [(k, v)]"
  by (induction al) auto

lemma fold_obj_set:
  "distinct (map fst (own acc) @ map fst xs) \<Longrightarrow>
   fold (\<lambda>kv obj. obj_set (fst kv) (snd kv) obj) xs acc
     = \<lparr>own = own acc @ filter (\<lambda>kv. fst kv \<noteq> proto_name) xs,
        proto = (case map_of xs proto_name of None \<Rightarrow> proto acc | Some v \<Rightarrow> Some v)\<rparr>"
proof (induction xs arbitrary: acc)
  case Nil
  then show ?case by simp
next
  case (Cons x xs)
  show ?case
  proof (cases "fst x = proto_name")
    case True
    have d: "distinct (map fst (own (acc\<lparr>proto := Some (snd x)\<rparr>)) @ map fst xs)"
      using Cons.prems by simp
    have "proto_name \<notin> fst ` set xs" using Cons.prems True by auto
    then have none: "map_of xs proto_name = None" by (simp add: map_of_eq_None_iff)
    show ?thesis
      using Cons.IH [OF d] True none by (simp add: obj_set_def)
  next
    case False
    have fresh: "fst x \<notin> fst ` set (own acc)" using Cons.prems by auto
    have d: "distinct (map fst (own (acc\<lparr>own := own acc @ [x]\<rparr>)) @ map fst xs)"
      using Cons.prems by simp
    show ?thesis
      using Cons.IH [OF d] False
      by (simp add: obj_set_def update_fresh [OF fresh] split: option.splits)
  qed
qed

lemma distinct_init_key: "distinct (map fst m) \<Longrightarrow> distinct (map fst (init_key b m))"
  by (auto simp: init_key_def map_has_def map_of_eq_None_iff)

lemma distinct_link: "distinct (map fst m) \<Longrightarrow> distinct (map fst (link a b m))"
  by (simp add: link_def add_related_def AList.distinct_map_entry distinct_init_key)

lemma distinct_fold_link: "distinct (map fst m) \<Longrightarrow> distinct (map fst (fold (link a) bs m))"
  by (induction bs arbitrary: m) (simp_all add: distinct_link)

lemma distinct_add_connection:
  "distinct (map fst m) \<Longrightarrow> distinct (map fst (add_connection U c m))"
  by (simp add: add_connection_def Let_def distinct_fold_link distinct_init_key)

lemma distinct_fold_add_connection:
  "distinct (map fst m) \<Longrightarrow> distinct (map fst (fold (add_connection U) cs m))"
  by (induction cs arbitrary: m) (simp_all add: distinct_add_connection)

lemma distinct_brandMap: "distinct (map fst (brandMap U cs))"
  by (simp add: brandMap_def distinct_fold_add_connection)

lemma getBrandsMapping_parts:
  "own (getBrandsMapping U cs) = filter (\<lambda>kv. fst kv \<noteq> proto_name) (brandMap U cs)"
  "proto (getBrandsMapping U cs) = map_of (brandMap U cs) proto_name"
  using fold_obj_set [of "\<lparr>own = [], proto = None\<rparr>" "brandMap U cs"]
  by (simp_all add: getBrandsMapping_def distinct_brandMap split: option.splits)

lemma map_of_filter_key:
  "map_of (filter (\<lambda>kv. fst kv \<noteq> p) m) k = (if k = p then None else map_of m k)"
  by (induction m) auto

lemma proto_name_inherited: "proto_name \<in> set object_prototype_names"
  by (simp add: proto_name_def object_prototype_names_def)

lemma obj_get_graph:
  "obj_get P (getBrandsMapping U cs) a = Arr xs \<longleftrightarrow> map_of (brandMap U cs) a = Some xs"
  by (auto simp: obj_get_def getBrandsMapping_parts map_of_filter_key proto_name_inherited
      split: option.splits)

lemma neighbours_adj: "neighbours P (getBrandsMapping U cs) a = adj (brandMap U cs) a"
proof (cases "map_of (brandMap U cs) a")
  case None
  then have "\<And>xs. obj_get P (getBrandsMapping U cs) a \<noteq> Arr xs" by (simp add: obj_get_graph)
  then show ?thesis using None by (auto simp: neighbours_def adj_def split: jsval.splits)
next
  case (Some xs)
  then have "obj_get P (getBrandsMapping U cs) a = Arr xs" by (simp add: obj_get_graph)
  then show ?thesis using Some by (simp add: neighbours_def adj_def)
qed

lemma neighbours_getBrandsMapping:
  "y \<in> neighbours P (getBrandsMapping U cs) x \<longleftrightarrow> (\<exists>c \<in> set cs. row_edge U c x y)"
  by (simp add: neighbours_adj adj_brandMap)

lemma row_edge_sym: "row_edge U c x y = row_edge U c y x"
  by (auto simp: row_edge_def)

lemma toLowerCase_Nil: "toLowerCase U [] = []"
  by (simp add: toLowerCase_def is_ascii_def)

lemma brand2Array_empty: "manufacturers_p2 c = [] \<Longrightarrow> brand2Array U c = [[]]"
  by (simp add: brand2Array_def toLowerCase_Nil trim_def)

subsection \<open>Facts about the canonical lookup\<close>

lemma foldl_shorter_first:
  "\<exists>i < length (x # xs). (x # xs) ! i = foldl shorter x xs
     \<and> (\<forall>j < length (x # xs). length (foldl shorter x xs) \<le> length ((x # xs) ! j))
     \<and> (\<forall>j < i. length (foldl shorter x xs) < length ((x # xs) ! j))"
proof (induction xs rule: rev_induct)
  case Nil
  then show ?case by simp
next
  case (snoc y ys)
  let ?c = "foldl shorter x ys"
  from snoc obtain i where i: "i < length (x # ys)" "(x # ys) ! i = ?c"
    and le: "\<forall>j < length (x # ys). length ?c \<le> length ((x # ys) ! j)"
    and lt: "\<forall>j < i. length ?c < length ((x # ys) ! j)" by blast
  show ?case
  proof (cases "length y < length ?c")
    case True
    then have new: "foldl shorter x (ys @ [y]) = y" by (simp add: shorter_def)
    have "\<forall>j < length (x # ys). length y < length ((x # ys @ [y]) ! j)"
    proof (intro allI impI)
      fix j assume j: "j < length (x # ys)"
      then have "(x # ys @ [y]) ! j = (x # ys) ! j"
        using nth_append [of "x # ys" "[y]" j] by simp
      with le j True show "length y < length ((x # ys @ [y]) ! j)" by fastforce
    qed
    moreover have "(x # ys @ [y]) ! (length (x # ys)) = y"
      using nth_append_length [of "x # ys" y "[]"] by simp
    ultimately show ?thesis
      unfolding new
      by (intro exI [of _ "length (x # ys)"]) (auto simp: less_Suc_eq)
  next
    case False
    then have old: "foldl shorter x (ys @ [y]) = ?c" by (simp add: shorter_def)
    have nth: "\<And>j. j < length (x # ys) \<Longrightarrow> (x # ys @ [y]) ! j = (x # ys) ! j"
      using nth_append [of "x # ys" "[y]"] by simp
    have last: "(x # ys @ [y]) ! (length (x # ys)) = y"
      using nth_append_length [of "x # ys" y "[]"] by simp
    have "\<forall>j < length (x # ys @ [y]). length ?c \<le> length ((x # ys @ [y]) ! j)"
    proof (intro allI impI)
      fix j assume "j < length (x # ys @ [y])"
      then consider "j < length (x # ys)" | "j = length (x # ys)" by fastforce
      then show "length ?c \<le> length ((x # ys @ [y]) ! j)"
      proof cases
        case 1
        then show ?thesis using le nth by simp
      next
        case 2
        then show ?thesis using last False by simp
      qed
    qed
    moreover have "\<forall>j < i. length ?c < length ((x # ys @ [y]) ! j)"
      using lt i(1) nth by simp
    moreover have "(x # ys @ [y]) ! i = ?c" using i nth by simp
    moreover have "i < length (x # ys @ [y])" using i(1) by simp
    ultimately show ?thesis unfolding old by blast
  qed
qed

lemma foldl_shorter_mem: "foldl shorter x xs \<in> set (x # xs)"
  by (induction xs arbitrary: x) (auto simp: shorter_def)

lemma reduce_shortest_spec:
  "reduce_shortest xs = (case spec_shortest xs of None \<Rightarrow> Inl TypeError | Some c \<Rightarrow> Inr c)"
proof (cases xs)
  case Nil
  then show ?thesis by (simp add: reduce_shortest_def spec_shortest_def)
next
  case (Cons x ys)
  let ?c = "foldl shorter x ys"
  from foldl_shorter_first [of x ys] obtain i where i: "i < length xs" "xs ! i = ?c"
    and le: "\<forall>j < length xs. length ?c \<le> length (xs ! j)"
    and lt: "\<forall>j < i. length ?c < length (xs ! j)" using Cons by blast
  have min: "list_all (\<lambda>y. length ?c \<le> length y) xs"
    using le by (auto simp: list_all_iff in_set_conv_nth)
  have "find (\<lambda>x. list_all (\<lambda>y. length x \<le> length y) xs) xs = Some ?c"
    unfolding find_Some_iff
  proof (intro exI [of _ i] conjI allI impI)
    show "i < length xs" by (rule i(1))
    show "list_all (\<lambda>y. length (xs ! i) \<le> length y) xs" using min i(2) by simp
    show "?c = xs ! i" using i(2) by simp
    fix j assume j: "j < i"
    have "?c \<in> set xs" using i nth_mem by metis
    moreover have "length ?c < length (xs ! j)" using lt j by simp
    ultimately show "\<not> list_all (\<lambda>y. length (xs ! j) \<le> length y) xs"
      by (auto simp: list_all_iff intro!: bexI [of _ "foldl shorter x ys"])
  qed
  then show ?thesis using Cons by (simp add: reduce_shortest_def spec_shortest_def)
qed

lemma filteredBrands_pool:
  "(if length (filteredBrands U xs) > 0 then filteredBrands U xs else xs) = spec_pool U xs"
  by (auto simp: filteredBrands_def spec_pool_def list_all_iff filter_empty_conv)

lemma canonicalBrand_spec:
  "canonicalBrand U xs =
     (case spec_shortest (spec_pool U xs) of None \<Rightarrow> Inl TypeError | Some c \<Rightarrow> Inr c)"
proof -
  have "canonicalBrand U xs
      = reduce_shortest (if length (filteredBrands U xs) > 0 then filteredBrands U xs else xs)"
    by (simp add: canonicalBrand_def)
  then show ?thesis by (simp only: filteredBrands_pool reduce_shortest_spec)
qed

lemma reduce_shortest_mem: "reduce_shortest xs = Inr c \<Longrightarrow> c \<in> set xs"
  using foldl_shorter_mem by (auto simp: reduce_shortest_def split: list.splits)

lemma canonicalBrand_mem: "canonicalBrand U xs = Inr c \<Longrightarrow> c \<in> set xs"
  by (auto simp: canonicalBrand_def filteredBrands_def split: if_splits dest: reduce_shortest_mem)

lemma canonicalBrand_ok: "xs \<noteq> [] \<Longrightarrow> \<exists>c. canonicalBrand U xs = Inr c"
  by (cases xs; cases "filteredBrands U xs")
     (auto simp: canonicalBrand_def reduce_shortest_def)

lemma map_of_map_to_canonical:
  "map_of (map_to_canonical U c xs l) a =
     (if a \<noteq> proto_name \<and> a \<in> toLowerCase U ` set xs then Some (toLowerCase U c)
      else map_of l a)"
proof (induction xs arbitrary: l)
  case Nil
  then show ?case by (simp add: map_to_canonical_def)
next
  case (Cons x xs)
  have step: "map_to_canonical U c (x # xs) l
      = map_to_canonical U c xs (lookup_set (toLowerCase U x) (toLowerCase U c) l)"
    by (simp add: map_to_canonical_def)
  show ?case
    unfolding step Cons.IH
    by (auto simp: lookup_set_def AList.update_conv')
qed

lemma canonical_loop_total:
  "list_all (\<lambda>e. snd e \<noteq> []) es \<Longrightarrow> \<exists>l'. canonical_loop U es l = Inr l'"
proof (induction es arbitrary: l)
  case Nil
  then show ?case by simp
next
  case (Cons e es)
  then obtain c where c: "canonicalBrand U (snd e) = Inr c"
    using canonicalBrand_ok [of "snd e" U] by auto
  from Cons show ?case by (simp add: c)
qed

lemma find_snoc:
  "find Q (xs @ [x]) = (case find Q xs of Some y \<Rightarrow> Some y | None \<Rightarrow> if Q x then Some x else None)"
  by (induction xs) auto

lemma canonical_loop_last:
  "canonical_loop U es l = Inr l' \<Longrightarrow> a \<noteq> proto_name \<Longrightarrow>
   map_of l' a =
     (case find (\<lambda>e. a \<in> set (map (toLowerCase U) (snd e))) (rev es) of
        None \<Rightarrow> map_of l a
      | Some e \<Rightarrow> map_option (toLowerCase U) (spec_shortest (spec_pool U (snd e))))"
proof (induction es arbitrary: l)
  case Nil
  then show ?case by simp
next
  case (Cons e es)
  from Cons.prems(1) obtain c where c: "canonicalBrand U (snd e) = Inr c"
    and rest: "canonical_loop U es (map_to_canonical U c (snd e) l) = Inr l'"
    by (auto split: sum.splits)
  have s: "spec_shortest (spec_pool U (snd e)) = Some c"
    using c canonicalBrand_spec [of U "snd e"] by (auto split: option.splits)
  show ?case
    unfolding Cons.IH [OF rest Cons.prems(2)]
    using Cons.prems(2) s
    by (simp add: find_snoc map_of_map_to_canonical split: option.splits)
qed

lemma canonical_loop_proto:
  "canonical_loop U es l = Inr l' \<Longrightarrow> map_of l' proto_name = map_of l proto_name"
proof (induction es arbitrary: l)
  case Nil
  then show ?case by simp
next
  case (Cons e es)
  from Cons.prems(1) obtain c where
    rest: "canonical_loop U es (map_to_canonical U c (snd e) l) = Inr l'"
    by (auto split: sum.splits)
  from Cons.IH [OF rest] show ?case by (simp add: map_of_map_to_canonical)
qed

lemma set_object_entries: "set (object_entries obj) = set obj"
  by (auto simp: object_entries_def)

subsection \<open>The graph the builder hands to the canonical lookup\<close>

lemma brand2Array_not_Nil: "brand2Array U c \<noteq> []"
  by (simp add: brand2Array_def split_not_Nil)

lemma no_isolated_add_connection:
  assumes "no_isolated m"
  shows "no_isolated (add_connection U c m)"
proof -
  let ?a = "toLowerCase U (manufacturer_p1 c)"
  let ?bs = "brand2Array U c"
  let ?m = "init_key ?a m"
  have h: "map_has ?m ?a" by (simp add: map_has_init_key)
  obtain b where b: "b \<in> set ?bs" using brand2Array_not_Nil [of U c] by (cases ?bs) auto
  have res: "add_connection U c m = fold (link ?a) ?bs ?m"
    by (simp add: add_connection_def Let_def)
  show ?thesis
    unfolding no_isolated_def res
  proof (intro allI impI)
    fix k assume k: "map_has (fold (link ?a) ?bs ?m) k"
    from fold_link [OF h, where bs = ?bs and k = k and x = k]
    have keys: "k \<in> set ?bs \<or> map_has ?m k"
      and nb: "\<And>y. y \<in> adj (fold (link ?a) ?bs ?m) k \<longleftrightarrow>
          y \<in> adj ?m k \<or> (k = ?a \<and> y \<in> set ?bs) \<or> (y = ?a \<and> k \<in> set ?bs)"
      using k fold_link [OF h, where bs = ?bs and x = k] by auto
    from keys consider "k \<in> set ?bs" | "k = ?a" | "map_has m k"
      by (auto simp: map_has_init_key)
    then show "adj (fold (link ?a) ?bs ?m) k \<noteq> {}"
    proof cases
      case 1
      then have "?a \<in> adj (fold (link ?a) ?bs ?m) k" using nb by simp
      then show ?thesis by blast
    next
      case 2
      then have "b \<in> adj (fold (link ?a) ?bs ?m) k" using nb b by simp
      then show ?thesis by blast
    next
      case 3
      then obtain y where "y \<in> adj m k" using assms by (auto simp: no_isolated_def)
      then have "y \<in> adj (fold (link ?a) ?bs ?m) k" using nb by (simp add: adj_init_key)
      then show ?thesis by blast
    qed
  qed
qed

lemma no_isolated_fold:
  "no_isolated m \<Longrightarrow> no_isolated (fold (add_connection U) cs m)"
  by (induction cs arbitrary: m) (simp_all add: no_isolated_add_connection)

lemma no_isolated_Nil: "no_isolated []"
  by (simp add: no_isolated_def map_has_def)

lemma no_isolated_brandMap: "no_isolated (brandMap U cs)"
  unfolding brandMap_def by (rule no_isolated_fold [OF no_isolated_Nil])

lemma entry_adj: "distinct (map fst m) \<Longrightarrow> (k, xs) \<in> set m \<Longrightarrow> adj m k = set xs"
  by (simp add: adj_def)

lemma own_entry_brandMap:
  "(k, xs) \<in> set (own (getBrandsMapping U cs)) \<longleftrightarrow> k \<noteq> proto_name \<and> (k, xs) \<in> set (brandMap U cs)"
  by (auto simp: getBrandsMapping_parts)

lemma graph_entry_neighbours:
  "(k, xs) \<in> set (own (getBrandsMapping U cs)) \<Longrightarrow> neighbours P (getBrandsMapping U cs) k = set xs"
  using entry_adj [OF distinct_brandMap]
  by (simp add: neighbours_adj own_entry_brandMap)

lemma graph_entry_not_Nil:
  assumes "(k, xs) \<in> set (own (getBrandsMapping U cs))"
  shows "xs \<noteq> []"
proof -
  have mem: "(k, xs) \<in> set (brandMap U cs)" using assms by (simp add: own_entry_brandMap)
  then have "map_has (brandMap U cs) k"
    using distinct_brandMap [of U cs] by (simp add: map_has_def)
  then have "adj (brandMap U cs) k \<noteq> {}"
    using no_isolated_brandMap [of U cs] by (simp add: no_isolated_def)
  then show ?thesis using entry_adj [OF distinct_brandMap mem] by auto
qed


text \<open>
  The entries that \<^verbatim>\<open>Object.entries\<close> lists are the arrays that the reads give, for every
  key but \<^verbatim>\<open>__proto__\<close>.
\<close>

lemma own_entries_reads:
  "(k, xs) \<in> set (object_entries (own (getBrandsMapping U cs)))
     \<longleftrightarrow> k \<noteq> proto_name \<and> obj_get P (getBrandsMapping U cs) k = Arr xs"
  using distinct_brandMap [of U cs]
  by (auto simp: set_object_entries own_entry_brandMap obj_get_graph)

subsection \<open>Facts about matching\<close>

lemma escapeRegExp_Cons: "escapeRegExp (c # cs) = (if syntax_character c then 92 # c # escapeRegExp cs
      else c # escapeRegExp cs)"
    by (simp add: escapeRegExp_def)

lemma escapeRegExp_Nil: "escapeRegExp [] = []"
  by (simp add: escapeRegExp_def)

lemma escapeRegExp_eq_Nil: "escapeRegExp cs = [] \<longleftrightarrow> cs = []"
  by (cases cs) (simp_all add: escapeRegExp_Nil escapeRegExp_Cons)

lemma literal_Cons: "literal (c # cs) = RSeq (RLit c) (literal cs)"
  by (simp add: literal_def)

lemma literal_Nil: "literal [] = REmpty"
  by (simp add: literal_def)

lemma atoms_escapeRegExp: "atoms (escapeRegExp b) = literal b"
proof (induction b)
  case Nil
  then show ?case by (simp add: escapeRegExp_Nil literal_Nil)
next
  case (Cons c cs)
  show ?case
  proof (cases "syntax_character c")
    case True
    then show ?thesis using Cons by (simp add: escapeRegExp_Cons literal_Cons)
  next
    case False
    then have c: "c \<noteq> 92" by (auto simp: syntax_character_def)
    show ?thesis
    proof (cases "escapeRegExp cs")
      case Nil
      then have "cs = []" by (simp add: escapeRegExp_eq_Nil)
      then show ?thesis using False by (simp add: escapeRegExp_Cons escapeRegExp_Nil literal_Cons literal_Nil)
    next
      case (Cons d ds)
      then show ?thesis using False c Cons.IH by (simp add: escapeRegExp_Cons literal_Cons)
    qed
  qed
qed

lemma matches_RSeq:
  "matches U s (RSeq a b) i j \<longleftrightarrow> (\<exists>k. i \<le> k \<and> k \<le> j \<and> matches U s a i k \<and> matches U s b k j)"
  unfolding matches.simps list_ex_iff set_upt by (auto simp: less_Suc_eq_le)

lemma test_iff:
  "test U r s \<longleftrightarrow> (\<exists>i j. i \<le> j \<and> j \<le> length s \<and> matches U s r i j)"
proof
  assume "test U r s"
  then obtain i j where "i \<in> {0..<Suc (length s)}" "j \<in> {i..<Suc (length s)}" "matches U s r i j"
    unfolding test_def list_ex_iff set_upt by blast
  then show "\<exists>i j. i \<le> j \<and> j \<le> length s \<and> matches U s r i j"
    by (intro exI [of _ i] exI [of _ j]) simp
next
  assume "\<exists>i j. i \<le> j \<and> j \<le> length s \<and> matches U s r i j"
  then obtain i j where ij: "i \<le> j" "j \<le> length s" "matches U s r i j" by blast
  then have "i \<in> {0..<Suc (length s)}" "j \<in> {i..<Suc (length s)}" by simp_all
  then show "test U r s"
    unfolding test_def list_ex_iff set_upt using ij(3) by blast
qed

lemma lit_at_length: "lit_at U s e i \<Longrightarrow> length e \<le> length s - i"
proof -
  assume "lit_at U s e i"
  then have "length (map (canonicalize U) (take (length e) (drop i s))) = length (map (canonicalize U) e)"
    unfolding lit_at_def by (rule arg_cong)
  then show ?thesis by simp
qed

lemma lit_at_Nil: "lit_at U s [] i"
  by (simp add: lit_at_def)

lemma lit_at_Cons:
  "lit_at U s (c # cs) i \<longleftrightarrow>
     i < length s \<and> canonicalize U (s ! i) = canonicalize U c \<and> lit_at U s cs (Suc i)"
proof (cases "i < length s")
  case True
  then have "take (length (c # cs)) (drop i s) = s ! i # take (length cs) (drop (Suc i) s)"
    by (simp add: Cons_nth_drop_Suc [symmetric])
  then show ?thesis using True by (simp add: lit_at_def)
next
  case False
  then show ?thesis by (simp add: lit_at_def)
qed

lemma matches_literal:
  "matches U s (literal e) i j \<longleftrightarrow> j = i + length e \<and> lit_at U s e i"
proof (induction e arbitrary: i)
  case Nil
  then show ?case by (auto simp: literal_Nil lit_at_Nil)
next
  case (Cons c cs)
  have "matches U s (literal (c # cs)) i j \<longleftrightarrow>
      (\<exists>k. i \<le> k \<and> k \<le> j \<and> matches U s (RLit c) i k \<and> matches U s (literal cs) k j)"
    unfolding literal_Cons by (rule matches_RSeq)
  also have "\<dots> \<longleftrightarrow> i < length s \<and> canonicalize U (s ! i) = canonicalize U c
      \<and> j = Suc i + length cs \<and> lit_at U s cs (Suc i)"
    unfolding Cons.IH by auto
  also have "\<dots> \<longleftrightarrow> j = i + length (c # cs) \<and> lit_at U s (c # cs) i"
    unfolding lit_at_Cons by auto
  finally show ?case .
qed

subsection \<open>Rules that evaluate the model on concrete input\<close>

text \<open>Rewrite rules that evaluate the string built-ins on concrete ASCII text.\<close>

lemmas string_eval =
  ascii_def toLowerCase_def toUpperCase_ascii_def normalizeNFD_def is_ascii_def ascii_lower_def
  ascii_upper_def trim_def is_space_def starts_with_def

text \<open>Rewrite rules that evaluate the builders on concrete rows.\<close>

lemmas graph_eval =
  getBrandsMapping_def brandMap_def add_connection_def brand2Array_def link_def init_key_def
  add_related_def map_has_def set_add_def obj_set_def proto_name_def Let_def

lemmas lookup_eval =
  buildCanonicalLookup_def object_entries_def is_array_index_def is_digit_def index_value_def
  canonicalBrand_def filteredBrands_def ignoreBrandsList_def reduce_shortest_def shorter_def
  map_to_canonical_def lookup_set_def proto_name_def spec_shortest_def spec_pool_def Let_def

subsection \<open>The lookup of a built graph\<close>

lemma graph_entries_not_Nil:
  "list_all (\<lambda>e. snd e \<noteq> []) (object_entries (own (getBrandsMapping U cs)))"
  unfolding list_all_iff set_object_entries
  using graph_entry_not_Nil [of _ _ U cs] by auto

lemma buildCanonicalLookup_total:
  "\<exists>lookup. buildCanonicalLookup U (getBrandsMapping U cs) = Inr lookup"
  unfolding buildCanonicalLookup_def
  by (rule canonical_loop_total [OF graph_entries_not_Nil])

lemma buildCanonicalLookup_map_of:
  assumes "buildCanonicalLookup U g = Inr lookup"
  shows "map_of lookup a = (if a = proto_name then None else label_of U (object_entries (own g)) a)"
proof (cases "a = proto_name")
  case True
  then show ?thesis
    using canonical_loop_proto [OF assms [unfolded buildCanonicalLookup_def]] by simp
next
  case False
  then show ?thesis
    using canonical_loop_last [OF assms [unfolded buildCanonicalLookup_def] False]
    by (simp add: label_of_def split: option.splits)
qed

lemma lookup_get_value:
  assumes "buildCanonicalLookup U g = Inr lookup"
  shows "lookup_get lookup a =
     (case (if a = proto_name then None else label_of U (object_entries (own g)) a) of
        Some c \<Rightarrow> Str c
      | None \<Rightarrow> if a \<in> set object_prototype_names then Inherited a else Undefined)"
  by (simp add: lookup_get_def buildCanonicalLookup_map_of [OF assms])

lemma canonical_of_value:
  "canonical_of U cs a =
     (case (if a = proto_name then None
            else label_of U (object_entries (own (getBrandsMapping U cs))) a) of
        Some c \<Rightarrow> Str c
      | None \<Rightarrow> if a \<in> set object_prototype_names then Inherited a else Undefined)"
proof -
  obtain lookup where l: "buildCanonicalLookup U (getBrandsMapping U cs) = Inr lookup"
    using buildCanonicalLookup_total by blast
  show ?thesis
    unfolding canonical_of_def l using lookup_get_value [OF l] by simp
qed

lemma canonical_of_Str:
  "canonical_of U cs a = Str c \<longleftrightarrow>
     a \<noteq> proto_name \<and> label_of U (object_entries (own (getBrandsMapping U cs))) a = Some c"
  unfolding canonical_of_value by (auto split: option.splits)

lemma spec_shortest_pool: "xs \<noteq> [] \<Longrightarrow> \<exists>c. spec_shortest (spec_pool U xs) = Some c"
  using canonicalBrand_ok [of xs U] canonicalBrand_spec [of U xs]
  by (auto split: option.splits)

lemma find_SomeD: "find Q xs = Some x \<Longrightarrow> x \<in> set xs \<and> Q x"
  by (induction xs) (auto split: if_splits)

lemma label_of_SomeD:
  assumes "label_of U es a = Some c"
  obtains e y where "find (\<lambda>e. a \<in> set (map (toLowerCase U) (snd e))) (rev es) = Some e"
    and "e \<in> set es" and "a \<in> toLowerCase U ` set (snd e)"
    and "spec_shortest (spec_pool U (snd e)) = Some y" and "c = toLowerCase U y"
proof -
  from assms obtain e y
    where f: "find (\<lambda>e. a \<in> set (map (toLowerCase U) (snd e))) (rev es) = Some e"
      and y: "spec_shortest (spec_pool U (snd e)) = Some y" "c = toLowerCase U y"
    by (auto simp: label_of_def split: option.splits)
  from find_SomeD [OF f] have "e \<in> set es" "a \<in> toLowerCase U ` set (snd e)"
    by simp_all
  with f y that show thesis by blast
qed

lemma label_of_listed:
  assumes "e \<in> set es" and "x \<in> set (snd e)"
  shows "\<exists>c. label_of U es (toLowerCase U x) = Some c"
proof -
  let ?Q = "\<lambda>e. toLowerCase U x \<in> set (map (toLowerCase U) (snd e))"
  have "?Q e" using assms(2) by simp
  then have "\<exists>y. y \<in> set (rev es) \<and> ?Q y" using assms(1) by (intro exI [of _ e]) simp
  then have "find ?Q (rev es) \<noteq> None" by (simp only: find_None_iff not_not)
  then obtain e' where f: "find ?Q (rev es) = Some e'" by blast
  from find_SomeD [OF f] have "snd e' \<noteq> []" by auto
  from spec_shortest_pool [OF this, of U] f show ?thesis by (auto simp: label_of_def)
qed

lemma neighbours_sym:
  "y \<in> neighbours P (getBrandsMapping U cs) x \<Longrightarrow> x \<in> neighbours P (getBrandsMapping U cs) y"
  using row_edge_sym [of U] by (auto simp: neighbours_getBrandsMapping)

subsection \<open>Sample inputs, evaluated\<close>

lemma heel_rows_graph:
  "getBrandsMapping U [\<lparr>manufacturer_p1 = ascii ''Heel'', manufacturers_p2 = ascii ''Contour; Gum''\<rparr>]
     = \<lparr>own = [(ascii ''heel'', [ascii ''contour'', ascii ''gum'']), (ascii ''contour'', [ascii ''heel'']),
               (ascii ''gum'', [ascii ''heel''])],
        proto = None\<rparr>"
  by (simp add: graph_eval string_eval)

lemma alpha_rows_graph:
  "getBrandsMapping U
     [\<lparr>manufacturer_p1 = ascii ''Alpha'', manufacturers_p2 = ascii ''abc;ab''\<rparr>,
      \<lparr>manufacturer_p1 = ascii ''Beta'', manufacturers_p2 = ascii ''ab;a''\<rparr>]
   = \<lparr>own = [(ascii ''alpha'', [ascii ''abc'', ascii ''ab'']), (ascii ''abc'', [ascii ''alpha'']),
             (ascii ''ab'', [ascii ''alpha'', ascii ''beta'']),
             (ascii ''beta'', [ascii ''ab'', ascii ''a'']), (ascii ''a'', [ascii ''beta''])],
      proto = None\<rparr>"
  by (simp add: graph_eval string_eval)

lemma alpha_rows_lookup:
  "buildCanonicalLookup U
    \<lparr>own = [(ascii ''alpha'', [ascii ''abc'', ascii ''ab'']), (ascii ''abc'', [ascii ''alpha'']),
            (ascii ''ab'', [ascii ''alpha'', ascii ''beta'']),
            (ascii ''beta'', [ascii ''ab'', ascii ''a'']), (ascii ''a'', [ascii ''beta''])],
     proto = None\<rparr>
   = Inr [(ascii ''abc'', ascii ''ab''), (ascii ''ab'', ascii ''a''), (ascii ''alpha'', ascii ''beta''),
          (ascii ''beta'', ascii ''beta''), (ascii ''a'', ascii ''a'')]"
  by (simp add: lookup_eval string_eval)

lemma alpha_rows_canonical:
  "canonical_of U
     [\<lparr>manufacturer_p1 = ascii ''Alpha'', manufacturers_p2 = ascii ''abc;ab''\<rparr>,
      \<lparr>manufacturer_p1 = ascii ''Beta'', manufacturers_p2 = ascii ''ab;a''\<rparr>] (ascii ''abc'')
     = Str (ascii ''ab'')"
  "canonical_of U
     [\<lparr>manufacturer_p1 = ascii ''Alpha'', manufacturers_p2 = ascii ''abc;ab''\<rparr>,
      \<lparr>manufacturer_p1 = ascii ''Beta'', manufacturers_p2 = ascii ''ab;a''\<rparr>] (ascii ''ab'')
     = Str (ascii ''a'')"
  unfolding canonical_of_def alpha_rows_graph alpha_rows_lookup
  by (simp_all add: lookup_get_def ascii_def)

text \<open>
  A row that relates \<open>acme\<close> with \<^verbatim>\<open>__proto__\<close>: the list of \<^verbatim>\<open>__proto__\<close> becomes the
  prototype of the graph object, and the lookup stays empty.
\<close>

lemma proto_rows_graph:
  "getBrandsMapping U [\<lparr>manufacturer_p1 = ascii ''Acme'', manufacturers_p2 = ascii ''__proto__''\<rparr>]
     = \<lparr>own = [(ascii ''acme'', [ascii ''__proto__''])], proto = Some [ascii ''acme'']\<rparr>"
  by (simp add: graph_eval string_eval)


text \<open>
  Rows whose shortest alias is \<^verbatim>\<open>__proto__\<close>: the label is stored as a value, and the
  read of the lookup under that name gives \<^verbatim>\<open>Object.prototype\<close>.
\<close>

lemma proto_label_graph:
  "getBrandsMapping U
     [\<lparr>manufacturer_p1 = ascii ''Acme'', manufacturers_p2 = ascii ''__proto__;zzzzzzzzzz''\<rparr>]
   = \<lparr>own = [(ascii ''acme'', [ascii ''__proto__'', ascii ''zzzzzzzzzz'']),
             (ascii ''zzzzzzzzzz'', [ascii ''acme''])],
      proto = Some [ascii ''acme'']\<rparr>"
  by (simp add: graph_eval string_eval)

lemma proto_label_lookup:
  "buildCanonicalLookup U
     \<lparr>own = [(ascii ''acme'', [ascii ''__proto__'', ascii ''zzzzzzzzzz'']),
             (ascii ''zzzzzzzzzz'', [ascii ''acme''])],
      proto = Some [ascii ''acme'']\<rparr>
   = Inr [(ascii ''zzzzzzzzzz'', ascii ''__proto__''), (ascii ''acme'', ascii ''acme'')]"
  by (simp add: lookup_eval string_eval)

lemma proto_label_canonical:
  "canonical_of U
     [\<lparr>manufacturer_p1 = ascii ''Acme'', manufacturers_p2 = ascii ''__proto__;zzzzzzzzzz''\<rparr>]
     (ascii ''zzzzzzzzzz'') = Str (ascii ''__proto__'')"
  "canonical_of U
     [\<lparr>manufacturer_p1 = ascii ''Acme'', manufacturers_p2 = ascii ''__proto__;zzzzzzzzzz''\<rparr>]
     (ascii ''__proto__'') = Inherited (ascii ''__proto__'')"
  unfolding canonical_of_def proto_label_graph proto_label_lookup
  by (simp_all add: lookup_get_def object_prototype_names_def ascii_def)

subsection \<open>Facts about the normalizer\<close>

lemma normalize_cached_result:
  "cache_consistent U cache \<Longrightarrow>
   fst (normalizeInputIfAccentInsensitive U cache input) = normalize_uncached U input"
  by (auto simp: normalizeInputIfAccentInsensitive_def cache_consistent_def Let_def
      split: option.splits)

lemma normalize_cached_consistent:
  "cache_consistent U cache \<Longrightarrow>
   cache_consistent U (snd (normalizeInputIfAccentInsensitive U cache input))"
  by (auto simp: normalizeInputIfAccentInsensitive_def cache_consistent_def Let_def
      split: option.splits)

lemma cache_consistent_empty: "cache_consistent U Map.empty"
  by (simp add: cache_consistent_def)

lemma strip_marks_idem: "strip_marks (strip_marks s) = strip_marks s"
  by (simp add: strip_marks_def)

lemma normalize_uncached_idem:
  assumes "hasAccents (normalizeNFD U s) \<longrightarrow>
     normalizeNFD U (strip_marks (normalizeNFD U s)) = strip_marks (normalizeNFD U s)"
  shows "normalize_uncached U (normalize_uncached U s) = normalize_uncached U s"
proof (cases "hasAccents (normalizeNFD U s)")
  case True
  then have r: "normalize_uncached U s = strip_marks (normalizeNFD U s)"
    by (simp add: normalize_uncached_def)
  have stable: "normalizeNFD U (strip_marks (normalizeNFD U s)) = strip_marks (normalizeNFD U s)"
    using assms True by simp
  show ?thesis
    unfolding r by (simp add: normalize_uncached_def [of U "strip_marks (normalizeNFD U s)"]
        stable strip_marks_idem Let_def)
next
  case False
  then have "normalize_uncached U s = s" by (simp add: normalize_uncached_def)
  then show ?thesis by simp
qed

lemma stroke_sample_nfd:
  "normalizeNFD ucd_sample [248, 7616, 847, 1425] = [248, 7616, 847, 1425]"
  "normalizeNFD ucd_sample [248, 7616, 1425] = [248, 1425, 7616]"
  "normalizeNFD ucd_sample [248, 847] = [248, 847]"
  "normalizeNFD ucd_sample [248] = [248]"
  by (simp_all add: normalizeNFD_def is_ascii_def ucd_sample_def canonical_order_def ccc_sample_def)

lemma stroke_sample_normalize:
  "normalize_uncached ucd_sample [248, 7616, 847, 1425] = [248, 7616, 1425]"
  "normalize_uncached ucd_sample [248, 7616, 1425] = [248, 1425, 7616]"
  "normalize_uncached ucd_sample [248, 847] = [248]"
  by (simp_all add: normalize_uncached_def stroke_sample_nfd hasAccents_def strip_marks_def
      combining_mark_def)

subsection \<open>What the four patterns accept\<close>

lemma escapeRegExp_plain: "\<not> list_ex syntax_character b \<Longrightarrow> escapeRegExp b = b"
  by (induction b) (simp_all add: escapeRegExp_Nil escapeRegExp_Cons)

lemma escapeRegExp_backslash: "list_ex syntax_character b \<Longrightarrow> 92 \<in> set (escapeRegExp b)"
  by (induction b) (auto simp: escapeRegExp_Nil escapeRegExp_Cons)

lemma escapeRegExp_happy: "escapeRegExp b = ascii ''happy'' \<longleftrightarrow> b = ascii ''happy''"
proof
  assume h: "escapeRegExp b = ascii ''happy''"
  have "92 \<notin> set (ascii ''happy'')" by (simp add: ascii_def)
  then have "\<not> list_ex syntax_character b" using escapeRegExp_backslash [of b] h by auto
  then show "b = ascii ''happy''" using escapeRegExp_plain h by simp
next
  assume "b = ascii ''happy''"
  then show "escapeRegExp b = ascii ''happy''"
    by (simp add: escapeRegExp_def ascii_def syntax_character_def)
qed

lemma atoms_HAPPY: "atoms (ascii ''HAPPY'') = literal (ascii ''HAPPY'')"
  by (simp add: ascii_def literal_def)

lemma toUpperCase_happy: "toUpperCase_ascii (ascii ''happy'') = ascii ''HAPPY''"
  by (simp add: toUpperCase_ascii_def ascii_def ascii_upper_def)

lemma atoms_escapedBrand: "atoms (escapedBrand b) = literal (pattern_text b)"
proof (cases "b = ascii ''happy''")
  case True
  then have "escapeRegExp b = ascii ''happy''" by (simp only: escapeRegExp_happy)
  then have "escapedBrand b = ascii ''HAPPY''"
    by (simp add: escapedBrand_def Let_def toUpperCase_happy)
  then show ?thesis using True by (simp add: atoms_HAPPY pattern_text_def)
next
  case False
  then have "escapedBrand b = escapeRegExp b"
    by (simp add: escapedBrand_def escapeRegExp_happy Let_def)
  then show ?thesis using False by (simp add: atoms_escapeRegExp pattern_text_def)
qed

lemma matches_SeqI:
  "matches U s a i k \<Longrightarrow> matches U s b k j \<Longrightarrow> i \<le> k \<Longrightarrow> k \<le> j \<Longrightarrow> matches U s (RSeq a b) i j"
  unfolding matches_RSeq by blast

lemma matches_SeqE:
  assumes "matches U s (RSeq a b) i j"
  obtains k where "i \<le> k" "k \<le> j" "matches U s a i k" "matches U s b k j"
  using assms unfolding matches_RSeq by blast

lemma matches_boundary_tail:
  "matches U s boundary_tail n j \<longleftrightarrow>
     (j = n \<and> word_boundary s n) \<or> (j = Suc n \<and> n < length s \<and> is_space (s ! n))
     \<or> (j = n \<and> n = length s)"
  by (auto simp: boundary_tail_def in_class_def)

lemma tail_at:
  "(\<exists>j. n \<le> j \<and> j \<le> length s \<and> matches U s boundary_tail n j) \<longleftrightarrow> n \<le> length s \<and> tail_ok s n"
proof
  assume "\<exists>j. n \<le> j \<and> j \<le> length s \<and> matches U s boundary_tail n j"
  then obtain j where "n \<le> j" "j \<le> length s" "matches U s boundary_tail n j" by blast
  then show "n \<le> length s \<and> tail_ok s n"
    unfolding matches_boundary_tail tail_ok_def by auto
next
  assume a: "n \<le> length s \<and> tail_ok s n"
  then consider "word_boundary s n" | "n < length s" "is_space (s ! n)" | "n = length s"
    unfolding tail_ok_def by blast
  then show "\<exists>j. n \<le> j \<and> j \<le> length s \<and> matches U s boundary_tail n j"
  proof cases
    case 1
    then have "n \<le> n \<and> n \<le> length s \<and> matches U s boundary_tail n n"
      using a by (simp add: matches_boundary_tail)
    then show ?thesis by blast
  next
    case 2
    then have "n \<le> Suc n \<and> Suc n \<le> length s \<and> matches U s boundary_tail n (Suc n)"
      by (simp add: matches_boundary_tail)
    then show ?thesis by blast
  next
    case 3
    then have "n \<le> n \<and> n \<le> length s \<and> matches U s boundary_tail n n"
      by (simp add: matches_boundary_tail)
    then show ?thesis by blast
  qed
qed

lemma matches_lit_tail:
  "(\<exists>j. q \<le> j \<and> j \<le> length s \<and> matches U s (RSeq (literal l) boundary_tail) q j)
     \<longleftrightarrow> lit_at U s l q \<and> q + length l \<le> length s \<and> tail_ok s (q + length l)"
proof
  assume "\<exists>j. q \<le> j \<and> j \<le> length s \<and> matches U s (RSeq (literal l) boundary_tail) q j"
  then obtain j where j: "j \<le> length s" and m: "matches U s (RSeq (literal l) boundary_tail) q j"
    by blast
  from m obtain k where k: "k \<le> j" "matches U s (literal l) q k" "matches U s boundary_tail k j"
    by (rule matches_SeqE)
  from k(2) have kq: "k = q + length l" and lit: "lit_at U s l q" by (simp_all add: matches_literal)
  have "\<exists>j. k \<le> j \<and> j \<le> length s \<and> matches U s boundary_tail k j" using k j by blast
  then have "k \<le> length s \<and> tail_ok s k" by (simp only: tail_at)
  then show "lit_at U s l q \<and> q + length l \<le> length s \<and> tail_ok s (q + length l)"
    using kq lit by simp
next
  assume a: "lit_at U s l q \<and> q + length l \<le> length s \<and> tail_ok s (q + length l)"
  then have "\<exists>j. q + length l \<le> j \<and> j \<le> length s \<and> matches U s boundary_tail (q + length l) j"
    by (simp only: tail_at)
  then obtain j where j: "q + length l \<le> j" "j \<le> length s"
      "matches U s boundary_tail (q + length l) j" by blast
  have "matches U s (literal l) q (q + length l)" using a by (simp add: matches_literal)
  then have "matches U s (RSeq (literal l) boundary_tail) q j"
    using j(3) by (rule matches_SeqI) (use j in simp_all)
  then show "\<exists>j. q \<le> j \<and> j \<le> length s \<and> matches U s (RSeq (literal l) boundary_tail) q j"
    using j by (intro exI [of _ j]) simp
qed

lemma test_at_beginning:
  assumes "atoms e = literal l"
  shows "test U (at_beginning_pattern e) s
     \<longleftrightarrow> lit_at U s l 0 \<and> length l \<le> length s \<and> tail_ok s (length l)"
proof -
  let ?r = "RSeq (literal l) boundary_tail"
  have "test U (at_beginning_pattern e) s \<longleftrightarrow> (\<exists>j. 0 \<le> j \<and> j \<le> length s \<and> matches U s ?r 0 j)"
  proof
    assume "test U (at_beginning_pattern e) s"
    then obtain i j where ij: "i \<le> j" "j \<le> length s" "matches U s (RSeq RBol ?r) i j"
      unfolding test_iff at_beginning_pattern_def assms by blast
    from ij(3) obtain k where "matches U s RBol i k" "matches U s ?r k j" by (rule matches_SeqE)
    then have "matches U s ?r 0 j" by simp
    then show "\<exists>j. 0 \<le> j \<and> j \<le> length s \<and> matches U s ?r 0 j" using ij(2) by blast
  next
    assume "\<exists>j. 0 \<le> j \<and> j \<le> length s \<and> matches U s ?r 0 j"
    then obtain j where j: "j \<le> length s" "matches U s ?r 0 j" by blast
    have "matches U s RBol 0 0" by simp
    then have "matches U s (RSeq RBol ?r) 0 j" using j(2) by (rule matches_SeqI) simp_all
    then show "test U (at_beginning_pattern e) s"
      unfolding test_iff at_beginning_pattern_def assms using j(1) by blast
  qed
  then show ?thesis by (simp only: matches_lit_tail) simp
qed

lemma run_of_refl: "i \<le> length s \<Longrightarrow> run_of k s i i"
  by (simp add: run_of_def)

lemma test_at_second:
  assumes "atoms e = literal l"
  shows "test U (at_second_pattern e) s
     \<longleftrightarrow> (\<exists>p q. 0 < p \<and> p < q \<and> run_of NonSpace s 0 p \<and> run_of Space s p q
            \<and> lit_at U s l q \<and> q + length l \<le> length s \<and> tail_ok s (q + length l))"
proof
  let ?r = "RSeq (literal l) boundary_tail"
  assume "test U (at_second_pattern e) s"
  then obtain i j where ij: "i \<le> j" "j \<le> length s"
      "matches U s (RSeq RBol (RSeq (RPlus NonSpace) (RSeq (RPlus Space) ?r))) i j"
    unfolding test_iff at_second_pattern_def assms by blast
  from ij(3) obtain k where k: "matches U s RBol i k"
      "matches U s (RSeq (RPlus NonSpace) (RSeq (RPlus Space) ?r)) k j" by (rule matches_SeqE)
  then have k0: "k = 0" by simp
  from k(2) obtain p where p: "matches U s (RPlus NonSpace) k p"
      "matches U s (RSeq (RPlus Space) ?r) p j" by (rule matches_SeqE)
  from p(2) obtain q where q: "matches U s (RPlus Space) p q" "q \<le> j" "matches U s ?r q j"
    by (rule matches_SeqE)
  have "\<exists>j. q \<le> j \<and> j \<le> length s \<and> matches U s ?r q j" using q ij(2) by blast
  then have "lit_at U s l q \<and> q + length l \<le> length s \<and> tail_ok s (q + length l)"
    by (simp only: matches_lit_tail)
  moreover have "0 < p \<and> run_of NonSpace s 0 p" using p(1) k0 by simp
  moreover have "p < q \<and> run_of Space s p q" using q(1) by simp
  ultimately show "\<exists>p q. 0 < p \<and> p < q \<and> run_of NonSpace s 0 p \<and> run_of Space s p q
            \<and> lit_at U s l q \<and> q + length l \<le> length s \<and> tail_ok s (q + length l)"
    by blast
next
  let ?r = "RSeq (literal l) boundary_tail"
  assume "\<exists>p q. 0 < p \<and> p < q \<and> run_of NonSpace s 0 p \<and> run_of Space s p q
            \<and> lit_at U s l q \<and> q + length l \<le> length s \<and> tail_ok s (q + length l)"
  then obtain p q where pq: "0 < p" "p < q" "run_of NonSpace s 0 p" "run_of Space s p q"
    and rest: "lit_at U s l q \<and> q + length l \<le> length s \<and> tail_ok s (q + length l)" by blast
  from rest have "\<exists>j. q \<le> j \<and> j \<le> length s \<and> matches U s ?r q j"
    by (simp only: matches_lit_tail)
  then obtain j where j: "q \<le> j" "j \<le> length s" "matches U s ?r q j" by blast
  have "matches U s (RPlus Space) p q" using pq by simp
  then have 1: "matches U s (RSeq (RPlus Space) ?r) p j"
    using j(3) by (rule matches_SeqI) (use pq j in simp_all)
  have "matches U s (RPlus NonSpace) 0 p" using pq by simp
  then have 2: "matches U s (RSeq (RPlus NonSpace) (RSeq (RPlus Space) ?r)) 0 j"
    using 1 by (rule matches_SeqI) (use pq j in simp_all)
  have "matches U s RBol 0 0" by simp
  then have "matches U s (RSeq RBol (RSeq (RPlus NonSpace) (RSeq (RPlus Space) ?r))) 0 j"
    using 2 by (rule matches_SeqI) simp_all
  then show "test U (at_second_pattern e) s"
    unfolding test_iff at_second_pattern_def assms using j(2) by blast
qed

lemma test_separate_term:
  assumes "atoms e = literal l"
  shows "test U (separate_term_pattern e) s
     \<longleftrightarrow> (\<exists>i. i + length l \<le> length s \<and> word_boundary s i \<and> lit_at U s l i
            \<and> word_boundary s (i + length l))"
proof
  assume "test U (separate_term_pattern e) s"
  then obtain i j where ij: "i \<le> j" "j \<le> length s"
      "matches U s (RSeq RWordB (RSeq (literal l) RWordB)) i j"
    unfolding test_iff separate_term_pattern_def assms by blast
  from ij(3) obtain k where k: "matches U s RWordB i k" "matches U s (RSeq (literal l) RWordB) k j"
    by (rule matches_SeqE)
  from k(2) obtain k' where k': "matches U s (literal l) k k'" "matches U s RWordB k' j"
    by (rule matches_SeqE)
  from k k' have "k = i" "word_boundary s i" "k' = i + length l" "lit_at U s l i" "j = k'"
      "word_boundary s k'"
    by (simp_all add: matches_literal)
  then show "\<exists>i. i + length l \<le> length s \<and> word_boundary s i \<and> lit_at U s l i
            \<and> word_boundary s (i + length l)"
    using ij(2) by auto
next
  assume "\<exists>i. i + length l \<le> length s \<and> word_boundary s i \<and> lit_at U s l i
            \<and> word_boundary s (i + length l)"
  then obtain i where i: "i + length l \<le> length s" "word_boundary s i" "lit_at U s l i"
      "word_boundary s (i + length l)" by blast
  have "matches U s (literal l) i (i + length l)" using i by (simp add: matches_literal)
  moreover have "matches U s RWordB (i + length l) (i + length l)" using i by simp
  ultimately have 1: "matches U s (RSeq (literal l) RWordB) i (i + length l)"
    by (rule matches_SeqI) simp_all
  have "matches U s RWordB i i" using i by simp
  then have "matches U s (RSeq RWordB (RSeq (literal l) RWordB)) i (i + length l)"
    using 1 by (rule matches_SeqI) simp_all
  then show "test U (separate_term_pattern e) s"
    unfolding test_iff separate_term_pattern_def assms using i(1)
    by (intro exI [of _ i] exI [of _ "i + length l"]) simp
qed

lemma matches_Seq_Bol: "matches U s (RSeq RBol b) i j \<longleftrightarrow> i = 0 \<and> matches U s b 0 j"
  unfolding matches_RSeq by auto

lemma matches_Seq_Eol:
  "matches U s (RSeq a REol) i j \<longleftrightarrow> j = length s \<and> i \<le> j \<and> matches U s a i j"
  unfolding matches_RSeq by auto

lemma matches_Seq_Class:
  "matches U s (RSeq (RClass k) b) i j \<longleftrightarrow>
     i < length s \<and> in_class k (s ! i) \<and> Suc i \<le> j \<and> matches U s b (Suc i) j"
  unfolding matches_RSeq by auto

lemma matches_Seq_literal:
  "matches U s (RSeq (literal l) b) i j \<longleftrightarrow>
     lit_at U s l i \<and> i + length l \<le> j \<and> matches U s b (i + length l) j"
  unfolding matches_RSeq matches_literal by auto

lemma matches_Seq_Star:
  "matches U s (RSeq (RStar k) b) i j \<longleftrightarrow>
     (\<exists>p. p \<le> j \<and> run_of k s i p \<and> matches U s b p j)"
  unfolding matches_RSeq by (auto simp: run_of_def)

lemma matches_inside_first:
  "matches U s (RSeq (literal l) (RClass Space)) 0 (length s) \<longleftrightarrow>
     lit_at U s l 0 \<and> length s = Suc (length l) \<and> is_space (s ! length l)"
  unfolding matches_Seq_literal by (auto simp: in_class_def)

lemma matches_inside_middle:
  "matches U s (RSeq (RStar AnyChar)
       (RSeq (RClass Space) (RSeq (literal l) (RSeq (RClass Space) (RStar AnyChar))))) 0 (length s)
   \<longleftrightarrow> (\<exists>p. run_of AnyChar s 0 p \<and> p < length s \<and> is_space (s ! p) \<and> lit_at U s l (Suc p)
            \<and> Suc p + length l < length s \<and> is_space (s ! (Suc p + length l))
            \<and> run_of AnyChar s (Suc (Suc p + length l)) (length s))"
  unfolding matches_Seq_Star matches_Seq_Class matches_Seq_literal
  apply (auto simp: in_class_def)
  subgoal for p by (rule exI [of _ p]) auto
  done

lemma matches_inside_last:
  "matches U s (RSeq (RStar AnyChar) (RSeq (RClass Space) (literal l))) 0 (length s)
   \<longleftrightarrow> (\<exists>p. run_of AnyChar s 0 p \<and> p < length s \<and> is_space (s ! p) \<and> lit_at U s l (Suc p)
            \<and> Suc p + length l = length s)"
  unfolding matches_Seq_Star matches_Seq_Class matches_literal
  apply (auto simp: in_class_def)
  subgoal for p by (rule exI [of _ p]) auto
  done

lemma test_inside_title:
  assumes "atoms e = literal l"
  shows "test U (inside_title_pattern e) s \<longleftrightarrow> inside_ok U s l"
proof -
  let ?alt = "RAlt (RSeq (literal l) (RClass Space))
     (RAlt (RSeq (RStar AnyChar)
              (RSeq (RClass Space) (RSeq (literal l) (RSeq (RClass Space) (RStar AnyChar)))))
           (RSeq (RStar AnyChar) (RSeq (RClass Space) (literal l))))"
  have "test U (inside_title_pattern e) s \<longleftrightarrow> matches U s ?alt 0 (length s)"
    unfolding test_iff inside_title_pattern_def assms matches_Seq_Bol matches_Seq_Eol
    by auto
  also have "\<dots> \<longleftrightarrow> inside_ok U s l"
    unfolding matches.simps(9) matches_inside_first matches_inside_middle matches_inside_last
      inside_ok_def by (rule refl)
  finally show ?thesis .
qed

subsection \<open>Case folding against ASCII text, and word characters\<close>

lemma canonicalize_ascii:
  assumes "c < 128"
  shows "canonicalize U d = canonicalize U c \<longleftrightarrow> d < 128 \<and> ascii_upper d = ascii_upper c"
proof (cases "d < 128")
  case True
  then show ?thesis using assms by (simp add: canonicalize_def)
next
  case False
  have "canonicalize U c < 128" using assms by (auto simp: canonicalize_def ascii_upper_def)
  moreover have "\<not> canonicalize U d < 128" using False by (simp add: canonicalize_def Let_def)
  ultimately show ?thesis using False by auto
qed

lemma map_canonicalize_ascii:
  "is_ascii l \<Longrightarrow>
   map (canonicalize U) t = map (canonicalize U) l \<longleftrightarrow> same_text t l"
proof (induction l arbitrary: t)
  case Nil
  then show ?case by (auto simp: same_text_def is_ascii_def)
next
  case (Cons c cs)
  then have c: "c < 128" and cs: "is_ascii cs" by (simp_all add: is_ascii_def)
  show ?case
  proof (cases t)
    case Nil
    then show ?thesis by (simp add: same_text_def)
  next
    case (Cons d ds)
    have "map (canonicalize U) ds = map (canonicalize U) cs \<longleftrightarrow> same_text ds cs"
      by (rule Cons.IH [OF cs])
    then show ?thesis
      using canonicalize_ascii [OF c, of U d] Cons
      by (auto simp: same_text_def is_ascii_def)
  qed
qed

lemma lit_at_ascii:
  "is_ascii l \<Longrightarrow> lit_at U s l i \<longleftrightarrow> same_text (take (length l) (drop i s)) l"
  unfolding lit_at_def by (rule map_canonicalize_ascii)

lemma word_char_ascii: "is_word_char c \<Longrightarrow> c < 128"
  by (auto simp: is_word_char_def)

lemma word_brand_ascii: "list_all is_word_char l \<Longrightarrow> is_ascii l"
  by (auto simp: is_ascii_def list_all_iff dest: word_char_ascii)

lemma fold_word_char:
  "is_word_char c \<Longrightarrow> d < 128 \<Longrightarrow> ascii_upper d = ascii_upper c \<Longrightarrow> is_word_char d"
  unfolding is_word_char_def ascii_upper_def by (auto split: if_splits)

lemma canonicalize_word_char:
  "is_word_char c \<Longrightarrow> canonicalize U d = canonicalize U c \<Longrightarrow> is_word_char d"
  using canonicalize_ascii [OF word_char_ascii, of c U d] fold_word_char by blast

lemma lit_at_nth:
  assumes "lit_at U s l i" and "k < length l"
  shows "i + k < length s \<and> canonicalize U (s ! (i + k)) = canonicalize U (l ! k)"
proof -
  have len: "length l \<le> length s - i" by (rule lit_at_length [OF assms(1)])
  then have b: "i + k < length s" using assms(2) by simp
  have "map (canonicalize U) (take (length l) (drop i s)) ! k = map (canonicalize U) l ! k"
    using assms(1) by (simp add: lit_at_def)
  moreover have "k < length (take (length l) (drop i s))" using len assms(2) by simp
  ultimately have "canonicalize U (take (length l) (drop i s) ! k) = canonicalize U (l ! k)"
    using assms(2) by simp
  then show ?thesis using b assms(2) by simp
qed

lemma lit_at_word:
  assumes "is_word_char (l ! k)" and "lit_at U s l i" and "k < length l"
  shows "is_word_at s (i + k)"
proof -
  from lit_at_nth [OF assms(2,3)]
  have b: "i + k < length s" and c: "canonicalize U (s ! (i + k)) = canonicalize U (l ! k)"
    by simp_all
  from canonicalize_word_char [OF assms(1) c] b show ?thesis by (simp add: is_word_at_def)
qed

lemma word_brand_edge: "word_brand l \<Longrightarrow> edge_word l"
  by (auto simp: word_brand_def edge_word_def list_all_iff)

lemma lit_at_word_first: "edge_word l \<Longrightarrow> lit_at U s l i \<Longrightarrow> is_word_at s i"
  using lit_at_word [of l 0 U s i] by (cases l) (simp_all add: edge_word_def)

lemma lit_at_word_last:
  assumes "edge_word l" and "lit_at U s l i"
  shows "is_word_at s (i + length l - 1)"
proof -
  have l: "0 < length l" "is_word_char (l ! (length l - 1))"
    using assms(1) last_conv_nth [of l] by (auto simp: edge_word_def)
  then have "is_word_at s (i + (length l - 1))"
    using lit_at_word [OF l(2) assms(2)] by simp
  moreover have "i + (length l - 1) = i + length l - 1" using l(1) by (cases l) simp_all
  ultimately show ?thesis by simp
qed

lemma is_space_not_word: "is_space c \<Longrightarrow> \<not> is_word_char c"
  by (auto simp: is_space_def is_word_char_def)

lemma word_boundary_start:
  "is_word_at s i \<Longrightarrow> i = 0 \<or> \<not> is_word_at s (i - 1) \<Longrightarrow> word_boundary s i"
  by (auto simp: word_boundary_def)

lemma word_boundary_end:
  "0 < n \<Longrightarrow> is_word_at s (n - 1) \<Longrightarrow> word_boundary s n \<longleftrightarrow> \<not> is_word_at s n"
  by (auto simp: word_boundary_def)

lemma tail_ok_after_word:
  assumes "0 < n" and "is_word_at s (n - 1)" and "n \<le> length s"
  shows "tail_ok s n \<longleftrightarrow> \<not> is_word_at s n"
proof -
  have "n < length s \<and> is_space (s ! n) \<Longrightarrow> \<not> is_word_at s n"
    by (simp add: is_word_at_def is_space_not_word)
  moreover have "n = length s \<Longrightarrow> \<not> is_word_at s n" by (simp add: is_word_at_def)
  ultimately show ?thesis
    unfolding tail_ok_def word_boundary_end [OF assms(1,2)] by blast
qed

subsection \<open>The compiled cache on aliases that begin and end with a word character\<close>

lemma run_of_nth: "run_of k s i j \<Longrightarrow> i \<le> m \<Longrightarrow> m < j \<Longrightarrow> in_class k (s ! m)"
proof -
  assume r: "run_of k s i j" and m: "i \<le> m" "m < j"
  then have all: "list_all (in_class k) (take (j - i) (drop i s))" and j: "j \<le> length s"
    by (simp_all add: run_of_def)
  have "m - i < length (take (j - i) (drop i s))" using m j by simp
  then have "in_class k (take (j - i) (drop i s) ! (m - i))"
    using all by (simp add: list_all_length)
  then show ?thesis using m j by simp
qed

lemma first_word_match:
  assumes "atoms e = literal l" and "edge_word l"
  shows "test U (at_beginning_pattern e) s \<longleftrightarrow> lit_at U s l 0 \<and> \<not> is_word_at s (length l)"
proof (cases "lit_at U s l 0")
  case True
  have pos: "0 < length l" using assms(2) by (simp add: edge_word_def)
  have len: "length l \<le> length s" using lit_at_length [OF True] by simp
  have "is_word_at s (length l - 1)" using lit_at_word_last [OF assms(2) True] by simp
  from tail_ok_after_word [OF pos this len] show ?thesis
    unfolding test_at_beginning [OF assms(1)] using True len by simp
next
  case False
  then show ?thesis unfolding test_at_beginning [OF assms(1)] by simp
qed

lemma separate_termI:
  assumes "atoms e = literal l" and "edge_word l" and "lit_at U s l i" and "i \<le> length s"
    and "i = 0 \<or> \<not> is_word_at s (i - 1)" and "\<not> is_word_at s (i + length l)"
  shows "test U (separate_term_pattern e) s"
proof -
  have pos: "0 < i + length l" using assms(2) by (simp add: edge_word_def)
  have len: "i + length l \<le> length s" using lit_at_length [OF assms(3)] assms(4) by simp
  have "word_boundary s i"
    using word_boundary_start [OF lit_at_word_first [OF assms(2,3)] assms(5)] .
  moreover have "word_boundary s (i + length l)"
    using word_boundary_end [OF pos lit_at_word_last [OF assms(2,3)]] assms(6) by simp
  ultimately show ?thesis
    unfolding test_separate_term [OF assms(1)] using len assms(3) by blast
qed

lemma beginning_separate:
  assumes "atoms e = literal l" and "edge_word l" and "test U (at_beginning_pattern e) s"
  shows "test U (separate_term_pattern e) s"
proof -
  from assms(3) have "lit_at U s l 0" "\<not> is_word_at s (length l)"
    unfolding first_word_match [OF assms(1,2)] by simp_all
  then show ?thesis using separate_termI [OF assms(1,2), of U s 0] by simp
qed

lemma not_word_at_space: "i < length s \<Longrightarrow> is_space (s ! i) \<Longrightarrow> \<not> is_word_at s i"
  by (simp add: is_word_at_def is_space_not_word)

lemma second_separate:
  assumes "atoms e = literal l" and "edge_word l" and "test U (at_second_pattern e) s"
  shows "test U (separate_term_pattern e) s"
proof -
  from assms(3) obtain p q where pq: "p < q" "run_of Space s p q" and lit: "lit_at U s l q"
    and len: "q + length l \<le> length s" and tail: "tail_ok s (q + length l)"
    unfolding test_at_second [OF assms(1)] by blast
  have pos: "0 < q + length l" using pq by simp
  have "in_class Space (s ! (q - 1))" using run_of_nth [OF pq(2), of "q - 1"] pq(1) by simp
  then have sp: "is_space (s ! (q - 1))" by (simp add: in_class_def)
  have "q - 1 < length s" using len pq(1) by simp
  from not_word_at_space [OF this sp] have before: "\<not> is_word_at s (q - 1)" .
  have "\<not> is_word_at s (q + length l)"
    using tail_ok_after_word [OF pos lit_at_word_last [OF assms(2) lit] len] tail by simp
  then show ?thesis
    using separate_termI [OF assms(1,2) lit _ _] before len by simp
qed

lemma inside_separate:
  assumes "atoms e = literal l" and "edge_word l" and "test U (inside_title_pattern e) s"
  shows "test U (separate_term_pattern e) s"
proof -
  from assms(3) have "inside_ok U s l" unfolding test_inside_title [OF assms(1)] .
  then consider
      (whole) "lit_at U s l 0" "length s = Suc (length l)" "is_space (s ! length l)"
    | (middle) p where "p < length s" "is_space (s ! p)" "lit_at U s l (Suc p)"
        "Suc p + length l < length s" "is_space (s ! (Suc p + length l))"
    | (last) p where "p < length s" "is_space (s ! p)" "lit_at U s l (Suc p)"
        "Suc p + length l = length s"
    unfolding inside_ok_def by blast
  then show ?thesis
  proof cases
    case whole
    have "\<not> is_word_at s (0 + length l)" using whole(2,3) by (simp add: not_word_at_space)
    then show ?thesis using separate_termI [OF assms(1,2) whole(1)] by simp
  next
    case middle
    have "\<not> is_word_at s (Suc p - 1)" using middle(1,2) by (simp add: not_word_at_space)
    moreover have "\<not> is_word_at s (Suc p + length l)"
      using middle(4,5) by (simp add: not_word_at_space)
    ultimately show ?thesis
      using separate_termI [OF assms(1,2) middle(3)] middle(1) by simp
  next
    case last
    have "\<not> is_word_at s (Suc p - 1)" using last(1,2) by (simp add: not_word_at_space)
    moreover have "\<not> is_word_at s (Suc p + length l)"
      using last(4) by (simp add: is_word_at_def)
    ultimately show ?thesis
      using separate_termI [OF assms(1,2) last(3)] last(1) by simp
  qed
qed

lemma cache_matches_entry:
  "cache_matches U t b \<longleftrightarrow> b \<notin> set ignoreBrandsList \<and> checkBrandMatch U t (cache_entry b)"
  by (simp add: cache_matches_def)

lemma test_RAlt: "test U (RAlt a b) t \<longleftrightarrow> test U a t \<or> test U b t"
  unfolding test_iff matches.simps by blast

lemma checkBrandMatch_entry:
  "checkBrandMatch U t (cache_entry b) =
     (if b \<in> set firstWordBrandValidationList then test U (at_beginning_pattern (escapedBrand b)) t
      else if b \<in> set firstOrSecondWordBrandValidationList then
        (test U (at_beginning_pattern (escapedBrand b)) t \<or> test U (at_second_pattern (escapedBrand b)) t)
      else test U (separate_term_pattern (escapedBrand b)) t)"
  by (simp add: checkBrandMatch_def cache_entry_def Let_def test_RAlt)

lemma word_brand_pattern_text: "word_brand b \<Longrightarrow> word_brand (pattern_text b)"
  by (simp add: pattern_text_def word_brand_def ascii_def is_word_char_def)

lemma edge_word_pattern_text: "edge_word b \<Longrightarrow> edge_word (pattern_text b)"
  by (simp add: pattern_text_def edge_word_def ascii_def is_word_char_def)

lemma cache_agrees_with_earlier:
  assumes "edge_word b"
  shows "checkBrandMatch U (normalize_uncached U input) (cache_entry b)
           = checkBrandIsSeparateTerm U input b"
    and "checkBrandMatch U (normalize_uncached U input) (cache_entry b)
           = checkBrandIsSeparateTerm_gated U input b"
proof -
  let ?e = "escapedBrand b" and ?t = "normalize_uncached U input"
  note e = atoms_escapedBrand [of b]
  note w = edge_word_pattern_text [OF assms]
  have bs: "test U (at_beginning_pattern ?e) ?t \<Longrightarrow> test U (separate_term_pattern ?e) ?t"
    by (rule beginning_separate [OF e w])
  have ss: "test U (at_second_pattern ?e) ?t \<Longrightarrow> test U (separate_term_pattern ?e) ?t"
    by (rule second_separate [OF e w])
  have ins: "test U (inside_title_pattern ?e) ?t \<Longrightarrow> test U (separate_term_pattern ?e) ?t"
    by (rule inside_separate [OF e w])
  show "checkBrandMatch U ?t (cache_entry b) = checkBrandIsSeparateTerm U input b"
    unfolding checkBrandMatch_entry checkBrandIsSeparateTerm_def Let_def using ins by auto
  show "checkBrandMatch U ?t (cache_entry b) = checkBrandIsSeparateTerm_gated U input b"
    unfolding checkBrandMatch_entry checkBrandIsSeparateTerm_gated_def Let_def
    using ins bs ss by auto
qed

subsection \<open>First-word aliases\<close>

lemma first_list_word_brand:
  "b \<in> set firstWordBrandValidationList \<Longrightarrow> word_brand b \<and> b \<notin> set ignoreBrandsList"
  by (auto simp: firstWordBrandValidationList_def ignoreBrandsList_def word_brand_def ascii_def
      is_word_char_def)

lemma same_text_pattern_text:
  "same_text t (pattern_text b) = same_text t b \<and> length (pattern_text b) = length b"
  by (simp add: pattern_text_def same_text_def ascii_def ascii_upper_def)

lemma first_word_brand_match:
  assumes "b \<in> set firstWordBrandValidationList"
  shows "cache_matches U t b \<longleftrightarrow> same_text (take (length b) t) b \<and> \<not> is_word_at t (length b)"
proof -
  from first_list_word_brand [OF assms] have w: "word_brand b" and i: "b \<notin> set ignoreBrandsList"
    by simp_all
  note wp = word_brand_pattern_text [OF w]
  have a: "is_ascii (pattern_text b)" using wp by (simp add: word_brand_def word_brand_ascii)
  have "cache_matches U t b \<longleftrightarrow> test U (at_beginning_pattern (escapedBrand b)) t"
    using assms i by (simp add: cache_matches_entry checkBrandMatch_entry)
  also have "\<dots> \<longleftrightarrow> lit_at U t (pattern_text b) 0 \<and> \<not> is_word_at t (length (pattern_text b))"
    by (rule first_word_match [OF atoms_escapedBrand word_brand_edge [OF wp]])
  also have "\<dots> \<longleftrightarrow> same_text (take (length b) t) b \<and> \<not> is_word_at t (length b)"
    by (simp add: lit_at_ascii [OF a] same_text_pattern_text)
  finally show ?thesis .
qed

lemma gum_first_word: "ascii ''gum'' \<in> set firstWordBrandValidationList"
  by (simp add: firstWordBrandValidationList_def)

lemma happy_first_word: "ascii ''happy'' \<in> set firstWordBrandValidationList"
  by (simp add: firstWordBrandValidationList_def)

lemmas title_eval = same_text_def is_word_at_def is_word_char_def string_eval

lemma gum_titles:
  "\<not> cache_matches U (ascii ''Sensitive Gum Protection'') (ascii ''gum'')"
  "cache_matches U (ascii ''Gum Paste Relief'') (ascii ''gum'')"
  "cache_matches U (ascii ''Gum-Paste Relief'') (ascii ''gum'')"
  unfolding first_word_brand_match [OF gum_first_word] by (simp_all add: title_eval)

lemma happy_titles:
  "\<not> cache_matches U (ascii ''So HAPPY today'') (ascii ''happy'')"
  "cache_matches U (ascii ''HAPPY Kids'') (ascii ''happy'')"
  "cache_matches U (ascii ''happy juice'') (ascii ''happy'')"
  unfolding first_word_brand_match [OF happy_first_word] by (simp_all add: title_eval)

lemma sample_tokens:
  "spec_tokens (ascii ''So HAPPY today'') = [ascii ''So'', ascii ''HAPPY'', ascii ''today'']"
  "spec_tokens (ascii ''happy juice'') = [ascii ''happy'', ascii ''juice'']"
  "spec_first_token (ascii ''Gum-Paste Relief'') = ascii ''Gum-Paste''"
  by (simp_all add: spec_tokens_def spec_first_token_def string_eval)

subsection \<open>Entries of the cache\<close>

lemma brand_cache_entry: "brand (cache_entry b) = b"
  by (simp add: cache_entry_def Let_def)

lemma buildBrandMatchCache_map:
  "buildBrandMatchCache brands = map cache_entry (filter (\<lambda>b. b \<notin> set ignoreBrandsList) brands)"
  by (induction brands) simp_all

subsection \<open>Titles in ASCII\<close>

lemma hasAccents_ascii: "is_ascii s \<Longrightarrow> \<not> hasAccents s"
  by (auto simp: is_ascii_def hasAccents_def combining_mark_def list_all_iff list_ex_iff)

lemma normalize_uncached_ascii: "is_ascii s \<Longrightarrow> normalize_uncached U s = s"
  by (simp add: normalize_uncached_def normalizeNFD_def hasAccents_ascii)

lemma is_ascii_ascii: "is_ascii (ascii ''x dr. y'')"
  by (simp add: string_eval)

subsection \<open>An alias that ends in a full stop\<close>

lemma dr_not_listed:
  "ascii ''dr.'' \<notin> set firstWordBrandValidationList"
  "ascii ''dr.'' \<notin> set firstOrSecondWordBrandValidationList"
  "ascii ''dr.'' \<notin> set ignoreBrandsList"
  by (simp_all add: firstWordBrandValidationList_def firstOrSecondWordBrandValidationList_def
      ignoreBrandsList_def ascii_def)

lemma dr_pattern_text: "pattern_text (ascii ''dr.'') = ascii ''dr.''"
  by (simp add: pattern_text_def ascii_def)

lemma dr_is_ascii: "is_ascii (ascii ''dr.'')"
  by (simp add: string_eval)

lemma dr_separate_term:
  "\<not> test U (separate_term_pattern (escapedBrand (ascii ''dr.''))) (ascii ''x dr. y'')"
proof -
  let ?s = "ascii ''x dr. y''" and ?l = "ascii ''dr.''"
  have e: "atoms (escapedBrand ?l) = literal ?l"
    using atoms_escapedBrand [of ?l] by (simp only: dr_pattern_text)
  have "\<not> (word_boundary ?s i \<and> lit_at U ?s ?l i \<and> word_boundary ?s (i + length ?l))"
    if "i + length ?l \<le> length ?s" for i
  proof -
    from that have "i \<le> 4" by (simp add: ascii_def)
    then consider "i = 0" | "i = 1" | "i = 2" | "i = 3" | "i = 4" by linarith
    then show ?thesis
      unfolding lit_at_ascii [OF dr_is_ascii]
      by cases (simp_all add: word_boundary_def title_eval)
  qed
  then show ?thesis unfolding test_separate_term [OF e] by blast
qed

lemma dr_inside_title:
  "test U (inside_title_pattern (escapedBrand (ascii ''dr.''))) (ascii ''x dr. y'')"
proof -
  let ?s = "ascii ''x dr. y''" and ?l = "ascii ''dr.''"
  have e: "atoms (escapedBrand ?l) = literal ?l"
    using atoms_escapedBrand [of ?l] by (simp only: dr_pattern_text)
  have "run_of AnyChar ?s 0 1 \<and> 1 < length ?s \<and> is_space (?s ! 1) \<and> lit_at U ?s ?l (Suc 1)
      \<and> Suc 1 + length ?l < length ?s \<and> is_space (?s ! (Suc 1 + length ?l))
      \<and> run_of AnyChar ?s (Suc (Suc 1 + length ?l)) (length ?s)"
    unfolding lit_at_ascii [OF dr_is_ascii]
    by (simp add: run_of_def in_class_def is_line_terminator_def title_eval)
  then have "inside_ok U ?s ?l" unfolding inside_ok_def by blast
  then show ?thesis by (simp only: test_inside_title [OF e])
qed

lemma dr_verdicts:
  "\<not> checkBrandMatch U (normalize_uncached U (ascii ''x dr. y'')) (cache_entry (ascii ''dr.''))"
  "checkBrandIsSeparateTerm U (ascii ''x dr. y'') (ascii ''dr.'')"
  "checkBrandIsSeparateTerm_gated U (ascii ''x dr. y'') (ascii ''dr.'')"
  unfolding normalize_uncached_ascii [OF is_ascii_ascii] checkBrandMatch_entry
    checkBrandIsSeparateTerm_def checkBrandIsSeparateTerm_gated_def Let_def
  using dr_separate_term [of U] dr_inside_title [of U]
  by (simp_all add: dr_not_listed)

subsection \<open>An alias with a full stop and a space inside\<close>

lemma dr_max_listed:
  "ascii ''dr. max'' \<notin> set firstWordBrandValidationList"
  "ascii ''dr. max'' \<notin> set firstOrSecondWordBrandValidationList"
  "ascii ''dr. max'' \<notin> set ignoreBrandsList"
  by (simp_all add: firstWordBrandValidationList_def firstOrSecondWordBrandValidationList_def
      ignoreBrandsList_def ascii_def)

lemma dr_max_text:
  "pattern_text (ascii ''dr. max'') = ascii ''dr. max''"
  "is_ascii (ascii ''dr. max'')" "edge_word (ascii ''dr. max'')"
  "\<not> word_brand (ascii ''dr. max'')"
  by (simp_all add: pattern_text_def edge_word_def word_brand_def is_word_char_def string_eval)

lemma dr_max_matches:
  "checkBrandMatch U (normalize_uncached U (ascii ''x dr. max y'')) (cache_entry (ascii ''dr. max''))"
proof -
  let ?s = "ascii ''x dr. max y''" and ?l = "ascii ''dr. max''"
  have n: "normalize_uncached U ?s = ?s"
    by (rule normalize_uncached_ascii) (simp add: string_eval)
  have e: "atoms (escapedBrand ?l) = literal ?l"
    using atoms_escapedBrand [of ?l] by (simp only: dr_max_text)
  have "lit_at U ?s ?l 2" unfolding lit_at_ascii [OF dr_max_text(2)] by (simp add: title_eval)
  then have "test U (separate_term_pattern (escapedBrand ?l)) ?s"
    by (rule separate_termI [OF e dr_max_text(3)]) (simp_all add: title_eval)
  then show ?thesis by (simp add: n checkBrandMatch_entry dr_max_listed)
qed

subsection \<open>Facts about the run\<close>

lemma process_products_map:
  "cache_consistent U cache \<Longrightarrow>
   process_products U l c n cache items
     = map (\<lambda>p. assign_title U l c n (title p) (normalize_uncached U (title p))) items"
proof (induction items arbitrary: cache)
  case Nil
  then show ?case by simp
next
  case (Cons p ps)
  obtain t cache' where n: "normalizeInputIfAccentInsensitive U cache (title p) = (t, cache')"
    by (cases "normalizeInputIfAccentInsensitive U cache (title p)")
  have t: "t = normalize_uncached U (title p)"
    using normalize_cached_result [OF Cons.prems, of "title p"] n by simp
  have "cache_consistent U cache'"
    using normalize_cached_consistent [OF Cons.prems, of "title p"] n by simp
  from Cons.IH [OF this] show ?case by (simp add: n t)
qed





subsection \<open>The scan for the earliest brand\<close>

lemma scan_ok_Nil: "scan_ok t [] (None, None)"
  by (simp add: scan_ok_def)

lemma scan_ok_snoc:
  assumes "scan_ok t xs st"
  shows "scan_ok t (xs @ [y]) (scan_step t y st)"
proof (cases "snd st")
  case None
  then have st: "st = (None, None)" and none: "\<forall>x \<in> set xs. indexOf t x = None"
    using assms by (auto simp: scan_ok_def prod_eq_iff)
  show ?thesis
  proof (cases "indexOf t y")
    case None
    then show ?thesis using none by (simp add: scan_step_def st scan_ok_def)
  next
    case (Some j)
    have all: "\<forall>m < length (xs @ [y]). occurs_no_later t y ((xs @ [y]) ! m)"
    proof (intro allI impI)
      fix m assume "m < length (xs @ [y])"
      then consider "m < length xs" | "m = length xs" by fastforce
      then show "occurs_no_later t y ((xs @ [y]) ! m)"
      proof cases
        case 1
        then have "indexOf t (xs ! m) = None" using none by simp
        then show ?thesis using Some 1 by (simp add: occurs_no_later_def nth_append)
      next
        case 2
        then show ?thesis using Some by (simp add: occurs_no_later_def)
      qed
    qed
    have before: "\<forall>m < length xs. \<not> occurs_no_later t ((xs @ [y]) ! m) y"
      using none by (simp add: occurs_no_later_def nth_append)
    have "scan_ok t (xs @ [y]) (Some j, Some y)"
      unfolding scan_ok_def using Some all before
      by (auto intro!: exI [of _ "length xs"])
    then show ?thesis by (simp add: scan_step_def st Some)
  qed
next
  case (Some c)
  from assms Some obtain i k where i: "indexOf t c = Some i" and f: "fst st = Some i"
    and k: "k < length xs" "xs ! k = c"
    and le: "\<forall>m < length xs. occurs_no_later t c (xs ! m)"
    and lt: "\<forall>m < k. \<not> occurs_no_later t (xs ! m) c"
    by (auto simp: scan_ok_def)
  have st: "st = (Some i, Some c)" using f Some by (simp add: prod_eq_iff)
  have nth: "\<And>m. m < length xs \<Longrightarrow> (xs @ [y]) ! m = xs ! m" by (simp add: nth_append)
  show ?thesis
  proof (cases "indexOf t y")
    case None
    have "\<forall>m < length (xs @ [y]). occurs_no_later t c ((xs @ [y]) ! m)"
    proof (intro allI impI)
      fix m assume "m < length (xs @ [y])"
      then consider "m < length xs" | "m = length xs" by fastforce
      then show "occurs_no_later t c ((xs @ [y]) ! m)"
      proof cases
        case 1
        then show ?thesis using le nth by simp
      next
        case 2
        then show ?thesis using None i by (simp add: occurs_no_later_def)
      qed
    qed
    then have "scan_ok t (xs @ [y]) (Some i, Some c)"
      unfolding scan_ok_def using i k lt nth
      by (auto intro!: exI [of _ k])
    then show ?thesis by (simp add: scan_step_def st None)
  next
    case (Some j)
    show ?thesis
    proof (cases "j < i")
      case True
      have all: "\<forall>m < length (xs @ [y]). occurs_no_later t y ((xs @ [y]) ! m)"
      proof (intro allI impI)
        fix m assume "m < length (xs @ [y])"
        then consider "m < length xs" | "m = length xs" by fastforce
        then show "occurs_no_later t y ((xs @ [y]) ! m)"
        proof cases
          case 1
          then have "occurs_no_later t c (xs ! m)" using le by simp
          then show ?thesis using Some i True 1
            by (auto simp: occurs_no_later_def nth_append split: option.splits)
        next
          case 2
          then show ?thesis using Some by (simp add: occurs_no_later_def)
        qed
      qed
      have before: "\<forall>m < length xs. \<not> occurs_no_later t ((xs @ [y]) ! m) y"
      proof (intro allI impI)
        fix m assume m: "m < length xs"
        then have "occurs_no_later t c (xs ! m)" using le by simp
        then show "\<not> occurs_no_later t ((xs @ [y]) ! m) y" using Some i True m
          by (auto simp: occurs_no_later_def nth_append split: option.splits)
      qed
      have "scan_ok t (xs @ [y]) (Some j, Some y)"
        unfolding scan_ok_def using Some all before
        by (auto intro!: exI [of _ "length xs"])
      then show ?thesis using True by (simp add: scan_step_def st Some)
    next
      case False
      have "\<forall>m < length (xs @ [y]). occurs_no_later t c ((xs @ [y]) ! m)"
      proof (intro allI impI)
        fix m assume "m < length (xs @ [y])"
        then consider "m < length xs" | "m = length xs" by fastforce
        then show "occurs_no_later t c ((xs @ [y]) ! m)"
        proof cases
          case 1
          then show ?thesis using le nth by simp
        next
          case 2
          then show ?thesis using Some i False by (simp add: occurs_no_later_def)
        qed
      qed
      then have "scan_ok t (xs @ [y]) (Some i, Some c)"
        unfolding scan_ok_def using i k lt nth
        by (auto intro!: exI [of _ k])
      then show ?thesis using False by (simp add: scan_step_def st Some)
    qed
  qed
qed

lemma scan_ok_fold: "scan_ok t xs (fold (scan_step t) xs (None, None))"
proof (induction xs rule: rev_induct)
  case Nil
  then show ?case by (simp add: scan_ok_Nil)
next
  case (snoc y ys)
  then show ?case using scan_ok_snoc [of t ys _ y] by simp
qed

lemma scan_ok_spec:
  assumes "scan_ok t xs st"
  shows "snd st = spec_leftmost t xs"
proof (cases "snd st")
  case None
  then have "\<forall>x \<in> set xs. indexOf t x = None" using assms by (simp add: scan_ok_def)
  then have "\<forall>x \<in> set xs. \<not> list_all (occurs_no_later t x) xs"
    by (auto simp: list_all_iff occurs_no_later_def)
  then have "spec_leftmost t xs = None" by (simp add: spec_leftmost_def find_None_iff)
  then show ?thesis using None by simp
next
  case (Some c)
  from assms Some obtain k where k: "k < length xs" "xs ! k = c"
    and le: "\<forall>m < length xs. occurs_no_later t c (xs ! m)"
    and lt: "\<forall>m < k. \<not> occurs_no_later t (xs ! m) c"
    by (auto simp: scan_ok_def)
  have cmem: "c \<in> set xs" using k nth_mem by metis
  have "find (\<lambda>c. list_all (occurs_no_later t c) xs) xs = Some c"
    unfolding find_Some_iff
  proof (intro exI [of _ k] conjI allI impI)
    show "k < length xs" by (rule k(1))
    show "list_all (occurs_no_later t (xs ! k)) xs"
      using le k(2) by (auto simp: list_all_iff in_set_conv_nth)
    show "c = xs ! k" using k(2) by simp
    fix m assume "m < k"
    then have "\<not> occurs_no_later t (xs ! m) c" using lt by simp
    then show "\<not> list_all (occurs_no_later t (xs ! m)) xs"
      using cmem by (auto simp: list_all_iff)
  qed
  then show ?thesis using Some by (simp add: spec_leftmost_def)
qed

lemma earliest_brand_spec: "earliest_brand t xs = spec_leftmost t xs"
  unfolding earliest_brand_def by (rule scan_ok_spec [OF scan_ok_fold])

subsection \<open>The matched list and the candidate set\<close>

lemma set_set_add: "set (set_add x xs) = insert x (set xs)"
  by (auto simp: set_add_def)

lemma set_fold_set_add: "set (fold set_add ys acc) = set ys \<union> set acc"
  by (induction ys arbitrary: acc) (auto simp: set_set_add)








lemma set_fold_fold_set_add:
  "set (fold (\<lambda>brands acc. fold set_add brands acc) xss acc) = set acc \<union> \<Union> (set ` set xss)"
  by (induction xss arbitrary: acc) (auto simp: set_fold_set_add)

lemma set_allBrands_of: "set (allBrands_of g) = (\<Union>kv \<in> set (own g). set (snd kv))"
  by (auto simp: allBrands_of_def object_values_def set_fold_fold_set_add set_object_entries)










subsection \<open>A run on the title \<open>Heel Contour Cream 50ml\<close>\<close>

lemma heel_contour_graph:
  "getBrandsMapping U [\<lparr>manufacturer_p1 = ascii ''Heel'', manufacturers_p2 = ascii ''Contour''\<rparr>]
     = \<lparr>own = [(ascii ''heel'', [ascii ''contour'']), (ascii ''contour'', [ascii ''heel''])],
        proto = None\<rparr>"
  by (simp add: graph_eval string_eval)

lemma heel_contour_lookup:
  "buildCanonicalLookup U
     \<lparr>own = [(ascii ''heel'', [ascii ''contour'']), (ascii ''contour'', [ascii ''heel''])],
      proto = None\<rparr>
     = Inr [(ascii ''contour'', ascii ''contour''), (ascii ''heel'', ascii ''heel'')]"
  by (simp add: lookup_eval string_eval)

lemma heel_contour_listed:
  "ascii ''heel'' \<notin> set firstWordBrandValidationList"
  "ascii ''heel'' \<in> set firstOrSecondWordBrandValidationList"
  "ascii ''contour'' \<notin> set firstWordBrandValidationList"
  "ascii ''contour'' \<in> set firstOrSecondWordBrandValidationList"
  "ascii ''heel'' \<notin> set ignoreBrandsList"
  "ascii ''contour'' \<notin> set ignoreBrandsList"
  by (simp_all add: firstWordBrandValidationList_def firstOrSecondWordBrandValidationList_def
      ignoreBrandsList_def ascii_def)

lemma heel_contour_text:
  "pattern_text (ascii ''heel'') = ascii ''heel''"
  "pattern_text (ascii ''contour'') = ascii ''contour''"
  "is_ascii (ascii ''heel'')" "is_ascii (ascii ''contour'')"
  "edge_word (ascii ''heel'')" "edge_word (ascii ''contour'')"
  by (simp_all add: pattern_text_def edge_word_def is_word_char_def string_eval)

lemma heel_matches:
  "checkBrandMatch U (ascii ''Heel Contour Cream 50ml'') (cache_entry (ascii ''heel''))"
proof -
  have e: "atoms (escapedBrand (ascii ''heel'')) = literal (ascii ''heel'')"
    using atoms_escapedBrand [of "ascii ''heel''"] by (simp only: heel_contour_text)
  have "test U (at_beginning_pattern (escapedBrand (ascii ''heel''))) (ascii ''Heel Contour Cream 50ml'')"
    unfolding first_word_match [OF e heel_contour_text(5)] lit_at_ascii [OF heel_contour_text(3)]
    by (simp add: title_eval)
  then show ?thesis by (simp add: checkBrandMatch_entry heel_contour_listed)
qed

lemma contour_matches:
  "checkBrandMatch U (ascii ''Heel Contour Cream 50ml'') (cache_entry (ascii ''contour''))"
proof -
  let ?s = "ascii ''Heel Contour Cream 50ml''" and ?l = "ascii ''contour''"
  have e: "atoms (escapedBrand ?l) = literal ?l"
    using atoms_escapedBrand [of ?l] by (simp only: heel_contour_text)
  have "0 < (4::nat) \<and> (4::nat) < 5 \<and> run_of NonSpace ?s 0 4 \<and> run_of Space ?s 4 5
      \<and> lit_at U ?s ?l 5 \<and> 5 + length ?l \<le> length ?s \<and> tail_ok ?s (5 + length ?l)"
    unfolding lit_at_ascii [OF heel_contour_text(4)]
    by (simp add: run_of_def in_class_def tail_ok_def word_boundary_def title_eval)
  then have "test U (at_second_pattern (escapedBrand ?l)) ?s"
    unfolding test_at_second [OF e] by blast
  then show ?thesis by (simp add: checkBrandMatch_entry heel_contour_listed)
qed

lemmas run_eval =
  allBrands_of_def object_values_def object_entries_def is_array_index_def is_digit_def
  brand_network_def obj_get_def truthy_def allConnectedBrands_def set_add_def Let_def

lemma heel_contour_run:
  "assignBrandIfKnown U P
     [\<lparr>manufacturer_p1 = ascii ''Heel'', manufacturers_p2 = ascii ''Contour''\<rparr>]
     [\<lparr>title = ascii ''Heel Contour Cream 50ml'', source_id = ascii ''1''\<rparr>]
   = Inr [\<lparr>product = ascii ''Heel Contour Cream 50ml'',
           matchedBrands = [ascii ''contour'', ascii ''heel''],
           assignedBrand = Some (Str (ascii ''heel'')),
           priorityBrand = Some (ascii ''heel'')\<rparr>]"
proof -
  let ?t = "ascii ''Heel Contour Cream 50ml''"
  let ?g = "\<lparr>own = [(ascii ''heel'', [ascii ''contour'']), (ascii ''contour'', [ascii ''heel''])],
             proto = None\<rparr>"
  have all: "allBrands_of ?g = [ascii ''contour'', ascii ''heel'']"
    by (simp add: run_eval ascii_def)
  have cache: "sort_by_length (buildBrandMatchCache [ascii ''contour'', ascii ''heel''])
      = [cache_entry (ascii ''contour''), cache_entry (ascii ''heel'')]"
    by (simp add: sort_by_length_def heel_contour_listed brand_cache_entry) (simp add: ascii_def)
  have net: "brandNetworkCache U P ?g [ascii ''contour'', ascii ''heel''] []
      = Inr [(ascii ''contour'', [ascii ''heel'', ascii ''contour'']),
             (ascii ''heel'', [ascii ''contour'', ascii ''heel''])]"
    by (simp add: run_eval string_eval)
  have n: "normalize_uncached U ?t = ?t"
    by (rule normalize_uncached_ascii) (simp add: string_eval)
  have matched: "matched_brands U ?t [cache_entry (ascii ''contour''), cache_entry (ascii ''heel'')]
      = [ascii ''contour'', ascii ''heel'']"
    by (simp add: matched_brands_def match_step_def brand_cache_entry heel_matches contour_matches)
       (simp add: ascii_def)
  have conn: "allConnectedBrands U
        [(ascii ''contour'', [ascii ''heel'', ascii ''contour'']),
         (ascii ''heel'', [ascii ''contour'', ascii ''heel''])]
        [ascii ''contour'', ascii ''heel'']
      = [ascii ''heel'', ascii ''contour'']"
    by (simp add: run_eval string_eval)
  have low: "toLowerCase U ?t = ascii ''heel contour cream 50ml''"
    by (simp add: string_eval)
  have early: "earliest_brand (ascii ''heel contour cream 50ml'') [ascii ''heel'', ascii ''contour'']
      = Some (ascii ''heel'')"
    by (simp add: earliest_brand_def scan_step_def string_eval)
  have title: "assign_title U [(ascii ''contour'', ascii ''contour''), (ascii ''heel'', ascii ''heel'')]
        [cache_entry (ascii ''contour''), cache_entry (ascii ''heel'')]
        [(ascii ''contour'', [ascii ''heel'', ascii ''contour'']),
         (ascii ''heel'', [ascii ''contour'', ascii ''heel''])] ?t ?t
      = \<lparr>product = ?t, matchedBrands = [ascii ''contour'', ascii ''heel''],
         assignedBrand = Some (Str (ascii ''heel'')), priorityBrand = Some (ascii ''heel'')\<rparr>"
    unfolding assign_title_def Let_def matched low
    by (simp add: conn early priority_or_first_def lookup_or_self_def lookup_get_def truthy_def)
       (simp add: ascii_def)
  show ?thesis
    unfolding assignBrandIfKnown_def Let_def heel_contour_graph heel_contour_lookup all cache net
    by (simp add: process_products_map [OF cache_consistent_empty] n title)
qed

subsection \<open>A run with the empty alias\<close>

lemma acme_graph:
  "getBrandsMapping U [\<lparr>manufacturer_p1 = ascii ''Acme'', manufacturers_p2 = []\<rparr>]
     = \<lparr>own = [(ascii ''acme'', [[]]), ([], [ascii ''acme''])], proto = None\<rparr>"
  by (simp add: graph_eval string_eval)

lemma acme_lookup:
  "buildCanonicalLookup U \<lparr>own = [(ascii ''acme'', [[]]), ([], [ascii ''acme''])], proto = None\<rparr>
     = Inr [([], []), (ascii ''acme'', ascii ''acme'')]"
  by (simp add: lookup_eval string_eval)

lemma acme_listed:
  "ascii ''acme'' \<notin> set firstWordBrandValidationList"
  "ascii ''acme'' \<notin> set firstOrSecondWordBrandValidationList"
  "ascii ''acme'' \<notin> set ignoreBrandsList"
  "[] \<notin> set firstWordBrandValidationList"
  "[] \<notin> set firstOrSecondWordBrandValidationList"
  "[] \<notin> set ignoreBrandsList"
  by (simp_all add: firstWordBrandValidationList_def firstOrSecondWordBrandValidationList_def
      ignoreBrandsList_def ascii_def)

lemma acme_text:
  "pattern_text (ascii ''acme'') = ascii ''acme''" "pattern_text [] = []"
  "is_ascii (ascii ''acme'')" "edge_word (ascii ''acme'')"
  by (simp_all add: pattern_text_def edge_word_def is_word_char_def string_eval)

lemma acme_matches: "checkBrandMatch U (ascii ''x acme'') (cache_entry (ascii ''acme''))"
proof -
  let ?s = "ascii ''x acme''" and ?l = "ascii ''acme''"
  have e: "atoms (escapedBrand ?l) = literal ?l"
    using atoms_escapedBrand [of ?l] by (simp only: acme_text)
  have "lit_at U ?s ?l 2" unfolding lit_at_ascii [OF acme_text(3)] by (simp add: title_eval)
  then have "test U (separate_term_pattern (escapedBrand ?l)) ?s"
    by (rule separate_termI [OF e acme_text(4)]) (simp_all add: title_eval)
  then show ?thesis by (simp add: checkBrandMatch_entry acme_listed)
qed

lemma empty_alias_matches: "checkBrandMatch U (ascii ''x acme'') (cache_entry [])"
proof -
  let ?s = "ascii ''x acme''"
  have e: "atoms (escapedBrand []) = literal []"
    using atoms_escapedBrand [of "[]"] by (simp only: acme_text)
  have "0 + length ([]::ustring) \<le> length ?s \<and> word_boundary ?s 0 \<and> lit_at U ?s [] 0
      \<and> word_boundary ?s (0 + length ([]::ustring))"
    by (simp add: lit_at_Nil word_boundary_def title_eval)
  then have "test U (separate_term_pattern (escapedBrand [])) ?s"
    unfolding test_separate_term [OF e] by blast
  then show ?thesis by (simp add: checkBrandMatch_entry acme_listed)
qed

lemma acme_network:
  "brandNetworkCache U P \<lparr>own = [(ascii ''acme'', [[]]), ([], [ascii ''acme''])], proto = None\<rparr>
     [[], ascii ''acme''] []
   = Inr [([], [ascii ''acme'', []]), (ascii ''acme'', [[], ascii ''acme''])]"
  by (simp add: run_eval string_eval)

lemma acme_candidates:
  "allConnectedBrands U [([], [ascii ''acme'', []]), (ascii ''acme'', [[], ascii ''acme''])]
     [ascii ''acme'', []]
   = [[], ascii ''acme'']"
  by (simp add: run_eval string_eval)

lemma acme_leftmost:
  "spec_leftmost (ascii ''x acme'') [[], ascii ''acme''] = Some []"
  "indexOf (ascii ''x acme'') [] = Some 0"
  "indexOf (ascii ''x acme'') (ascii ''acme'') = Some 2"
  by (simp_all add: spec_leftmost_def occurs_no_later_def string_eval)

lemma acme_run:
  "assignBrandIfKnown U P
     [\<lparr>manufacturer_p1 = ascii ''Acme'', manufacturers_p2 = []\<rparr>]
     [\<lparr>title = ascii ''x acme'', source_id = ascii ''1''\<rparr>]
   = Inr [\<lparr>product = ascii ''x acme'', matchedBrands = [ascii ''acme'', []],
           assignedBrand = Some (Str (ascii ''acme'')), priorityBrand = Some (ascii ''acme'')\<rparr>]"
proof -
  let ?t = "ascii ''x acme''"
  let ?g = "\<lparr>own = [(ascii ''acme'', [[]]), ([], [ascii ''acme''])], proto = None\<rparr>"
  have all: "allBrands_of ?g = [[], ascii ''acme'']"
    by (simp add: run_eval ascii_def)
  have cache: "sort_by_length (buildBrandMatchCache [[], ascii ''acme''])
      = [cache_entry (ascii ''acme''), cache_entry []]"
    by (simp add: sort_by_length_def acme_listed brand_cache_entry)
  have n: "normalize_uncached U ?t = ?t"
    by (rule normalize_uncached_ascii) (simp add: string_eval)
  have matched: "matched_brands U ?t [cache_entry (ascii ''acme''), cache_entry []]
      = [ascii ''acme'', []]"
    by (simp add: matched_brands_def match_step_def brand_cache_entry acme_matches
        empty_alias_matches)
       (simp add: ascii_def)
  have low: "toLowerCase U ?t = ?t" by (simp add: string_eval)
  have early: "earliest_brand ?t [[], ascii ''acme''] = Some []"
    by (simp add: earliest_brand_spec acme_leftmost)
  have title: "assign_title U [([], []), (ascii ''acme'', ascii ''acme'')]
        [cache_entry (ascii ''acme''), cache_entry []]
        [([], [ascii ''acme'', []]), (ascii ''acme'', [[], ascii ''acme''])] ?t ?t
      = \<lparr>product = ?t, matchedBrands = [ascii ''acme'', []],
         assignedBrand = Some (Str (ascii ''acme'')), priorityBrand = Some (ascii ''acme'')\<rparr>"
    unfolding assign_title_def Let_def matched low
    by (simp add: acme_candidates early priority_or_first_def lookup_or_self_def lookup_get_def
        truthy_def)
       (simp add: string_eval)
  show ?thesis
    unfolding assignBrandIfKnown_def Let_def acme_graph acme_lookup all cache acme_network
    by (simp add: process_products_map [OF cache_consistent_empty] n title)
qed

lemma acme_run_candidates:
  "run_candidates U P [\<lparr>manufacturer_p1 = ascii ''Acme'', manufacturers_p2 = []\<rparr>] [ascii ''acme'', []]
     = [[], ascii ''acme'']"
proof -
  have all: "allBrands_of \<lparr>own = [(ascii ''acme'', [[]]), ([], [ascii ''acme''])], proto = None\<rparr>
      = [[], ascii ''acme'']"
    by (simp add: run_eval ascii_def)
  show ?thesis
    unfolding run_candidates_def acme_graph all
    by (simp only: acme_network sum.case acme_candidates)
qed

lemma acme_lower_title: "lower_title U (ascii ''x acme'') = ascii ''x acme''"
  by (simp add: lower_title_def normalize_uncached_def hasAccents_def combining_mark_def string_eval)

subsection \<open>A run with the alias \<open>__proto__\<close>\<close>






subsection \<open>The result of a run, record by record\<close>



lemma heel_contour_canonical:
  "canonical_of U [\<lparr>manufacturer_p1 = ascii ''Heel'', manufacturers_p2 = ascii ''Contour''\<rparr>]
     (ascii ''heel'') = Str (ascii ''heel'')"
  unfolding canonical_of_def heel_contour_graph heel_contour_lookup
  by (simp add: lookup_get_def ascii_def)

subsection \<open>Rows of ASCII text\<close>

lemma lowered_lower:
  "is_ascii s \<Longrightarrow> lowered (toLowerCase U s)"
  by (auto simp: lowered_def toLowerCase_def is_ascii_def list_all_iff ascii_lower_def)

lemma lowered_stable: "lowered s \<Longrightarrow> toLowerCase U s = s"
  by (auto simp: lowered_def toLowerCase_def is_ascii_def list_all_iff intro: map_idI)

lemma lowered_subset: "lowered s \<Longrightarrow> set w \<subseteq> set s \<Longrightarrow> lowered w"
  by (auto simp: lowered_def list_all_iff)

lemma set_split: "w \<in> set (split sep s) \<Longrightarrow> set w \<subseteq> set s"
proof (induction s arbitrary: w)
  case Nil
  then show ?case by simp
next
  case (Cons c cs)
  show ?case
  proof (cases "split sep cs")
    case Nil
    then show ?thesis using Cons.prems by (auto split: if_splits)
  next
    case (Cons a list)
    have "set a \<subseteq> set cs" using Cons.IH [of a] Cons by simp
    moreover have "\<And>v. v \<in> set list \<Longrightarrow> set v \<subseteq> set cs" using Cons.IH Cons by simp
    ultimately show ?thesis using Cons.prems Cons by (auto split: if_splits)
  qed
qed

lemma set_trim: "set (trim s) \<subseteq> set s"
  by (auto simp: trim_def dest!: set_dropWhileD)

lemma lowered_brand2Array:
  assumes "is_ascii (manufacturers_p2 c)" and "b \<in> set (brand2Array U c)"
  shows "lowered b"
proof -
  from assms(2) obtain w where w: "w \<in> set (split 59 (toLowerCase U (manufacturers_p2 c)))"
    and b: "b = trim w" by (auto simp: brand2Array_def)
  have "set b \<subseteq> set (toLowerCase U (manufacturers_p2 c))"
    using set_split [OF w] set_trim [of w] b by blast
  then show ?thesis by (rule lowered_subset [OF lowered_lower [OF assms(1)]])
qed

lemma ascii_rows_stable:
  assumes "\<forall>c \<in> set connections. is_ascii (manufacturer_p1 c) \<and> is_ascii (manufacturers_p2 c)"
  shows "\<forall>b \<in> set (allBrands_of (getBrandsMapping U connections)). toLowerCase U b = b"
proof
  fix b assume "b \<in> set (allBrands_of (getBrandsMapping U connections))"
  then obtain k ys where e: "(k, ys) \<in> set (own (getBrandsMapping U connections))" and b: "b \<in> set ys"
    by (auto simp: set_allBrands_of)
  have "b \<in> neighbours [] (getBrandsMapping U connections) k"
    using graph_entry_neighbours [OF e] b by simp
  then obtain c where c: "c \<in> set connections" and r: "row_edge U c k b"
    by (auto simp: neighbours_getBrandsMapping)
  from r consider "b \<in> set (brand2Array U c)" | "b = toLowerCase U (manufacturer_p1 c)"
    by (auto simp: row_edge_def)
  then have "lowered b"
  proof cases
    case 1
    then show ?thesis using lowered_brand2Array assms c by blast
  next
    case 2
    then show ?thesis using lowered_lower assms c by blast
  qed
  then show "toLowerCase U b = b" by (rule lowered_stable)
qed

subsection \<open>A run on the title \<open>Contour Heel Cream\<close>\<close>









section \<open>The properties claimed by the specification\<close>

text \<open>
  C5. For every sequence of brand-relation records, the alias graph that \<^verbatim>\<open>getBrandsMapping\<close>
  builds is symmetric: \<open>b\<close> is in \<open>graph[a]\<close> if and only if \<open>a\<close> is in \<open>graph[b]\<close>, the
  graph read as the code reads it, \<^verbatim>\<open>brandsMapping[a]\<close>. The list of the alias \<^verbatim>\<open>__proto__\<close>,
  when the rows name that alias, is not an own property of the object: it is the prototype
  of the object, and the read \<^verbatim>\<open>brandsMapping["__proto__"]\<close> gives it.
\<close>

theorem graph_symmetry:
  "b \<in> neighbours P (getBrandsMapping U connections) a
     \<longleftrightarrow> a \<in> neighbours P (getBrandsMapping U connections) b"
  using row_edge_sym [of U] by (auto simp: neighbours_getBrandsMapping)

theorem graph_symmetry_witness:
  "ascii ''gum'' \<in> neighbours array_prototype_sample (getBrandsMapping ucd_sample
       [\<lparr>manufacturer_p1 = ascii ''Heel'', manufacturers_p2 = ascii ''Contour; Gum''\<rparr>]) (ascii ''heel'')
   \<and> ascii ''heel'' \<in> neighbours array_prototype_sample (getBrandsMapping ucd_sample
       [\<lparr>manufacturer_p1 = ascii ''Heel'', manufacturers_p2 = ascii ''Contour; Gum''\<rparr>]) (ascii ''gum'')
   \<and> ascii ''acme'' \<in> neighbours array_prototype_sample (getBrandsMapping ucd_sample
       [\<lparr>manufacturer_p1 = ascii ''Acme'', manufacturers_p2 = ascii ''__proto__''\<rparr>]) (ascii ''__proto__'')
   \<and> ascii ''__proto__'' \<in> neighbours array_prototype_sample (getBrandsMapping ucd_sample
       [\<lparr>manufacturer_p1 = ascii ''Acme'', manufacturers_p2 = ascii ''__proto__''\<rparr>]) (ascii ''acme'')"
proof -
  have 1: "ascii ''gum'' \<in> neighbours array_prototype_sample (getBrandsMapping ucd_sample
       [\<lparr>manufacturer_p1 = ascii ''Heel'', manufacturers_p2 = ascii ''Contour; Gum''\<rparr>]) (ascii ''heel'')"
    unfolding heel_rows_graph by (simp add: neighbours_def obj_get_def ascii_def)
  have 2: "ascii ''acme'' \<in> neighbours array_prototype_sample (getBrandsMapping ucd_sample
       [\<lparr>manufacturer_p1 = ascii ''Acme'', manufacturers_p2 = ascii ''__proto__''\<rparr>]) (ascii ''__proto__'')"
    unfolding proto_rows_graph by (simp add: neighbours_def obj_get_def proto_name_def ascii_def)
  show ?thesis
    using 1 2
      graph_symmetry [of "ascii ''gum''" array_prototype_sample ucd_sample
        "[\<lparr>manufacturer_p1 = ascii ''Heel'', manufacturers_p2 = ascii ''Contour; Gum''\<rparr>]"
        "ascii ''heel''"]
      graph_symmetry [of "ascii ''acme''" array_prototype_sample ucd_sample
        "[\<lparr>manufacturer_p1 = ascii ''Acme'', manufacturers_p2 = ascii ''__proto__''\<rparr>]"
        "ascii ''__proto__''"]
    by simp
qed

text \<open>
  C7, as the specification states it: a record whose secondary-alias text is empty adds no
  edge, so the graph is the one built without the record. The code does otherwise:
  \<^verbatim>\<open>"".split(";")\<close> is the array of one empty string, and the record links its primary alias
  with the empty alias.
\<close>

theorem empty_secondary_counterexample:
  "getBrandsMapping ucd_sample [\<lparr>manufacturer_p1 = ascii ''Acme'', manufacturers_p2 = []\<rparr>]
     = \<lparr>own = [(ascii ''acme'', [[]]), ([], [ascii ''acme''])], proto = None\<rparr>
   \<and> getBrandsMapping ucd_sample [] = \<lparr>own = [], proto = None\<rparr>
   \<and> getBrandsMapping ucd_sample [\<lparr>manufacturer_p1 = ascii ''Acme'', manufacturers_p2 = []\<rparr>]
     \<noteq> getBrandsMapping ucd_sample []"
  by (simp add: acme_graph) (simp add: getBrandsMapping_def brandMap_def)

text \<open>
  C7, amended: a record whose secondary-alias text is empty is processed without error and
  adds exactly one undirected edge, between its lower-cased primary alias and the empty
  alias; every other adjacency of the graph is that of the input without the record.
\<close>

theorem empty_secondary_row:
  "manufacturers_p2 c = [] \<Longrightarrow>
   b \<in> neighbours P (getBrandsMapping U (before @ c # after)) a
     \<longleftrightarrow> b \<in> neighbours P (getBrandsMapping U (before @ after)) a
         \<or> (a = toLowerCase U (manufacturer_p1 c) \<and> b = [])
         \<or> (a = [] \<and> b = toLowerCase U (manufacturer_p1 c))"
  by (auto simp: neighbours_getBrandsMapping row_edge_def brand2Array_empty)

theorem empty_secondary_row_witness:
  "manufacturers_p2 \<lparr>manufacturer_p1 = ascii ''Acme'', manufacturers_p2 = []\<rparr> = []
   \<and> [] \<in> neighbours array_prototype_sample (getBrandsMapping ucd_sample
           ([] @ \<lparr>manufacturer_p1 = ascii ''Acme'', manufacturers_p2 = []\<rparr> # [])) (ascii ''acme'')"
proof -
  have p2: "manufacturers_p2 \<lparr>manufacturer_p1 = ascii ''Acme'', manufacturers_p2 = []\<rparr> = []"
    by simp
  have low: "toLowerCase ucd_sample (manufacturer_p1 \<lparr>manufacturer_p1 = ascii ''Acme'',
      manufacturers_p2 = []\<rparr>) = ascii ''acme''"
    by (simp add: string_eval)
  show ?thesis
    using empty_secondary_row [OF p2, of "[]" array_prototype_sample ucd_sample "[]" "[]"
        "ascii ''acme''"] low p2
    by simp
qed




text \<open>
  C6, as the specification states it: \<open>canonical(a)\<close> is \<open>a\<close> or a neighbour of \<open>a\<close>, and
  \<open>canonical\<close> is idempotent. For the rows \<^verbatim>\<open>Alpha: abc;ab\<close> and \<^verbatim>\<open>Beta: ab;a\<close> the
  lookup sends \<open>abc\<close> to \<open>ab\<close>, which is neither \<open>abc\<close> nor its only neighbour \<open>alpha\<close>,
  and sends \<open>ab\<close> to \<open>a\<close>.
\<close>

theorem canonical_stability_counterexample:
  "canonical_of ucd_sample
     [\<lparr>manufacturer_p1 = ascii ''Alpha'', manufacturers_p2 = ascii ''abc;ab''\<rparr>,
      \<lparr>manufacturer_p1 = ascii ''Beta'', manufacturers_p2 = ascii ''ab;a''\<rparr>] (ascii ''abc'')
     = Str (ascii ''ab'')
   \<and> canonical_of ucd_sample
     [\<lparr>manufacturer_p1 = ascii ''Alpha'', manufacturers_p2 = ascii ''abc;ab''\<rparr>,
      \<lparr>manufacturer_p1 = ascii ''Beta'', manufacturers_p2 = ascii ''ab;a''\<rparr>] (ascii ''ab'')
     = Str (ascii ''a'')
   \<and> neighbours array_prototype_sample (getBrandsMapping ucd_sample
     [\<lparr>manufacturer_p1 = ascii ''Alpha'', manufacturers_p2 = ascii ''abc;ab''\<rparr>,
      \<lparr>manufacturer_p1 = ascii ''Beta'', manufacturers_p2 = ascii ''ab;a''\<rparr>]) (ascii ''abc'')
     = {ascii ''alpha''}"
  unfolding alpha_rows_canonical alpha_rows_graph
  by (simp add: obj_get_def neighbours_def ascii_def)

text \<open>
  C6, amended: for every alias \<open>a\<close> of the canonical lookup, \<open>canonical(a)\<close> is the
  lower-cased label, chosen as C4 says, of the last neighbour list in the order of
  \<^verbatim>\<open>Object.entries\<close> that holds \<open>a\<close>. That list is the list of a graph key \<open>k\<close> adjacent to
  \<open>a\<close>, and the label is a member of it: \<open>canonical(a)\<close> is a neighbour of a direct
  neighbour of \<open>a\<close> (\<open>a\<close> itself or an alias two steps away). Unless it is \<^verbatim>\<open>__proto__\<close>,
  \<open>canonical(a)\<close> is again an alias of the lookup.
\<close>

theorem canonical_two_steps:
  "canonical_of U connections a = Str c \<Longrightarrow>
   \<exists>k related y x.
      find (\<lambda>e. a \<in> set (map (toLowerCase U) (snd e)))
        (rev (object_entries (own (getBrandsMapping U connections)))) = Some (k, related)
      \<and> neighbours P (getBrandsMapping U connections) k = set related
      \<and> spec_shortest (spec_pool U related) = Some y
      \<and> canonicalBrand U related = Inr y
      \<and> c = toLowerCase U y
      \<and> y \<in> neighbours P (getBrandsMapping U connections) k
      \<and> a = toLowerCase U x
      \<and> x \<in> neighbours P (getBrandsMapping U connections) k
      \<and> k \<in> neighbours P (getBrandsMapping U connections) x
      \<and> (c \<noteq> proto_name \<longrightarrow> (\<exists>c'. canonical_of U connections c = Str c'))"
proof -
  assume c: "canonical_of U connections a = Str c"
  let ?g = "getBrandsMapping U connections"
  let ?es = "object_entries (own ?g)"
  from c have l: "label_of U ?es a = Some c" by (simp add: canonical_of_Str)
  from l obtain e y
    where f: "find (\<lambda>e. a \<in> set (map (toLowerCase U) (snd e))) (rev ?es) = Some e"
      and e: "e \<in> set ?es" and a: "a \<in> toLowerCase U ` set (snd e)"
      and y: "spec_shortest (spec_pool U (snd e)) = Some y" and cy: "c = toLowerCase U y"
    by (rule label_of_SomeD)
  obtain k related where kr: "e = (k, related)" by (cases e)
  from a kr obtain x where x: "x \<in> set related" "a = toLowerCase U x" by auto
  have own: "(k, related) \<in> set (own ?g)" using e kr by (simp add: set_object_entries)
  have nb: "neighbours P ?g k = set related" by (rule graph_entry_neighbours [OF own])
  have cb: "canonicalBrand U related = Inr y"
    using y kr canonicalBrand_spec [of U related] by simp
  have ymem: "y \<in> set related" by (rule canonicalBrand_mem [OF cb])
  have xk: "x \<in> neighbours P ?g k" using x nb by simp
  then have kx: "k \<in> neighbours P ?g x" by (rule neighbours_sym)
  have again: "\<exists>c'. canonical_of U connections c = Str c'" if "c \<noteq> proto_name"
  proof -
    from label_of_listed [OF e, of y U] ymem kr obtain c'
      where "label_of U ?es (toLowerCase U y) = Some c'" by auto
    then show ?thesis using that cy by (simp add: canonical_of_Str)
  qed
  show ?thesis
    using f kr nb y cb cy ymem x(2) xk kx again
    by (intro exI [of _ k] exI [of _ related] exI [of _ y] exI [of _ x]) simp
qed

theorem canonical_two_steps_witness:
  "canonical_of ucd_sample
     [\<lparr>manufacturer_p1 = ascii ''Alpha'', manufacturers_p2 = ascii ''abc;ab''\<rparr>,
      \<lparr>manufacturer_p1 = ascii ''Beta'', manufacturers_p2 = ascii ''ab;a''\<rparr>] (ascii ''abc'')
     = Str (ascii ''ab'')
   \<and> (\<exists>k related y x.
        find (\<lambda>e. ascii ''abc'' \<in> set (map (toLowerCase ucd_sample) (snd e)))
          (rev (object_entries (own (getBrandsMapping ucd_sample
             [\<lparr>manufacturer_p1 = ascii ''Alpha'', manufacturers_p2 = ascii ''abc;ab''\<rparr>,
              \<lparr>manufacturer_p1 = ascii ''Beta'', manufacturers_p2 = ascii ''ab;a''\<rparr>]))))
          = Some (k, related)
        \<and> canonicalBrand ucd_sample related = Inr y
        \<and> ascii ''ab'' = toLowerCase ucd_sample y
        \<and> ascii ''abc'' = toLowerCase ucd_sample x
        \<and> x \<in> neighbours array_prototype_sample (getBrandsMapping ucd_sample
             [\<lparr>manufacturer_p1 = ascii ''Alpha'', manufacturers_p2 = ascii ''abc;ab''\<rparr>,
              \<lparr>manufacturer_p1 = ascii ''Beta'', manufacturers_p2 = ascii ''ab;a''\<rparr>]) k
        \<and> y \<in> neighbours array_prototype_sample (getBrandsMapping ucd_sample
             [\<lparr>manufacturer_p1 = ascii ''Alpha'', manufacturers_p2 = ascii ''abc;ab''\<rparr>,
              \<lparr>manufacturer_p1 = ascii ''Beta'', manufacturers_p2 = ascii ''ab;a''\<rparr>]) k)
   \<and> (\<exists>c'. canonical_of ucd_sample
        [\<lparr>manufacturer_p1 = ascii ''Alpha'', manufacturers_p2 = ascii ''abc;ab''\<rparr>,
         \<lparr>manufacturer_p1 = ascii ''Beta'', manufacturers_p2 = ascii ''ab;a''\<rparr>] (ascii ''ab'')
        = Str c')"
proof -
  have ne: "ascii ''ab'' \<noteq> proto_name" by (simp add: proto_name_def ascii_def)
  from canonical_two_steps [OF alpha_rows_canonical(1) [of ucd_sample], of array_prototype_sample]
  obtain k related y x
    where "find (\<lambda>e. ascii ''abc'' \<in> set (map (toLowerCase ucd_sample) (snd e)))
          (rev (object_entries (own (getBrandsMapping ucd_sample
             [\<lparr>manufacturer_p1 = ascii ''Alpha'', manufacturers_p2 = ascii ''abc;ab''\<rparr>,
              \<lparr>manufacturer_p1 = ascii ''Beta'', manufacturers_p2 = ascii ''ab;a''\<rparr>]))))
          = Some (k, related)"
      and "canonicalBrand ucd_sample related = Inr y"
      and "ascii ''ab'' = toLowerCase ucd_sample y"
      and "ascii ''abc'' = toLowerCase ucd_sample x"
      and "x \<in> neighbours array_prototype_sample (getBrandsMapping ucd_sample
             [\<lparr>manufacturer_p1 = ascii ''Alpha'', manufacturers_p2 = ascii ''abc;ab''\<rparr>,
              \<lparr>manufacturer_p1 = ascii ''Beta'', manufacturers_p2 = ascii ''ab;a''\<rparr>]) k"
      and "y \<in> neighbours array_prototype_sample (getBrandsMapping ucd_sample
             [\<lparr>manufacturer_p1 = ascii ''Alpha'', manufacturers_p2 = ascii ''abc;ab''\<rparr>,
              \<lparr>manufacturer_p1 = ascii ''Beta'', manufacturers_p2 = ascii ''ab;a''\<rparr>]) k"
      and "ascii ''ab'' \<noteq> proto_name \<longrightarrow> (\<exists>c'. canonical_of ucd_sample
        [\<lparr>manufacturer_p1 = ascii ''Alpha'', manufacturers_p2 = ascii ''abc;ab''\<rparr>,
         \<lparr>manufacturer_p1 = ascii ''Beta'', manufacturers_p2 = ascii ''ab;a''\<rparr>] (ascii ''ab'')
        = Str c')"
    by blast
  then show ?thesis
    using ne alpha_rows_canonical(1) [of ucd_sample] by blast
qed

text \<open>
  C8, as the specification states it: \<open>normalize(normalize(s)) = normalize(s)\<close> for every
  string. The string U+00F8 U+1DC0 U+034F U+0591 is in decomposed form and holds a code unit
  of the tested ranges, so the marks U+0300 to U+036F are removed, among them the joiner
  U+034F that kept the two accents apart. The second call decomposes the result again, the
  canonical ordering now swaps the two accents, and the second result differs from the first.
\<close>

theorem normalize_idempotent_counterexample:
  "fst (normalizeInputIfAccentInsensitive ucd_sample Map.empty [248, 7616, 847, 1425])
     = [248, 7616, 1425]
   \<and> fst (normalizeInputIfAccentInsensitive ucd_sample
          (snd (normalizeInputIfAccentInsensitive ucd_sample Map.empty [248, 7616, 847, 1425]))
          [248, 7616, 1425])
     = [248, 1425, 7616]"
  using normalize_cached_result [OF cache_consistent_empty, of ucd_sample "[248, 7616, 847, 1425]"]
    normalize_cached_result [OF normalize_cached_consistent [OF cache_consistent_empty],
      of ucd_sample "[248, 7616, 847, 1425]" "[248, 7616, 1425]"]
  by (simp add: stroke_sample_normalize)

text \<open>
  C8, amended: \<open>normalize(normalize(s)) = normalize(s)\<close> for every string \<open>s\<close> whose
  decomposition, once its marks are removed, is itself in decomposed form; in particular for
  every string whose decomposition holds no code unit of the tested ranges, which the
  normalizer returns unchanged. The cache does not change the results.
\<close>

theorem normalize_idempotent_when_stable:
  "cache_consistent U cache \<Longrightarrow>
   (hasAccents (normalizeNFD U s) \<longrightarrow>
      normalizeNFD U (strip_marks (normalizeNFD U s)) = strip_marks (normalizeNFD U s)) \<Longrightarrow>
   fst (normalizeInputIfAccentInsensitive U
          (snd (normalizeInputIfAccentInsensitive U cache s))
          (fst (normalizeInputIfAccentInsensitive U cache s)))
     = fst (normalizeInputIfAccentInsensitive U cache s)"
  by (simp add: normalize_cached_result normalize_cached_consistent normalize_uncached_idem)

theorem normalize_idempotent_when_stable_witness:
  "cache_consistent ucd_sample Map.empty
   \<and> hasAccents (normalizeNFD ucd_sample [248, 847])
   \<and> normalizeNFD ucd_sample (strip_marks (normalizeNFD ucd_sample [248, 847]))
        = strip_marks (normalizeNFD ucd_sample [248, 847])
   \<and> fst (normalizeInputIfAccentInsensitive ucd_sample Map.empty [248, 847]) = [248]
   \<and> fst (normalizeInputIfAccentInsensitive ucd_sample
          (snd (normalizeInputIfAccentInsensitive ucd_sample Map.empty [248, 847])) [248])
        = [248]"
proof -
  have a: "hasAccents (normalizeNFD ucd_sample [248, 847])"
    by (simp add: stroke_sample_nfd hasAccents_def combining_mark_def)
  have st: "strip_marks (normalizeNFD ucd_sample [248, 847]) = [248]"
    by (simp add: stroke_sample_nfd strip_marks_def combining_mark_def)
  have b: "normalizeNFD ucd_sample (strip_marks (normalizeNFD ucd_sample [248, 847]))
        = strip_marks (normalizeNFD ucd_sample [248, 847])"
    unfolding st by (simp add: stroke_sample_nfd)
  have r: "fst (normalizeInputIfAccentInsensitive ucd_sample Map.empty [248, 847]) = [248]"
    using normalize_cached_result [OF cache_consistent_empty, of ucd_sample "[248, 847]"]
    by (simp add: stroke_sample_normalize)
  from normalize_idempotent_when_stable [OF cache_consistent_empty, of ucd_sample "[248, 847]"] b
  show ?thesis
    using a b r cache_consistent_empty [of ucd_sample] by simp
qed

text \<open>
  C1, as the specification states it: the alias \<open>happy\<close> is reported as matched if and only
  if the title contains the upper-case token \<open>HAPPY\<close>. The alias is on the first-word list, so
  a title that holds the token \<open>HAPPY\<close> after its first word gives no match.
\<close>

theorem happy_token_counterexample:
  "ascii ''HAPPY'' \<in> set (spec_tokens (ascii ''So HAPPY today''))
   \<and> \<not> cache_matches ucd_sample (ascii ''So HAPPY today'') (ascii ''happy'')"
  by (simp add: sample_tokens happy_titles)

text \<open>
  C1, amended (\<open>t\<close> is the normalized title the matcher is given): the alias \<open>happy\<close> is
  reported as matched when \<open>t\<close> starts with the upper-case text \<open>HAPPY\<close> and the end of the
  title or a character that is no letter, digit or underscore follows; it is not reported
  unless \<open>t\<close> starts with the five letters of the alias in some letter case, followed in the
  same way.
\<close>

theorem happy_first_word_upper:
  "(starts_with t (ascii ''HAPPY'') \<and> \<not> is_word_at t 5 \<longrightarrow> cache_matches U t (ascii ''happy''))
   \<and> (cache_matches U t (ascii ''happy'')
        \<longrightarrow> same_text (take 5 t) (ascii ''happy'') \<and> \<not> is_word_at t 5)"
proof -
  have len: "length (ascii ''happy'') = 5" by (simp add: ascii_def)
  have "same_text (take 5 t) (ascii ''happy'')" if "starts_with t (ascii ''HAPPY'')"
  proof -
    have "length (ascii ''HAPPY'') = 5" by (simp add: ascii_def)
    with that have "take 5 t = ascii ''HAPPY''" by (simp add: starts_with_def)
    then show ?thesis by (simp add: title_eval)
  qed
  then show ?thesis
    unfolding first_word_brand_match [OF happy_first_word] len by blast
qed

theorem happy_first_word_upper_witness:
  "starts_with (ascii ''HAPPY Kids'') (ascii ''HAPPY'') \<and> \<not> is_word_at (ascii ''HAPPY Kids'') 5
   \<and> cache_matches ucd_sample (ascii ''HAPPY Kids'') (ascii ''happy'')
   \<and> same_text (take 5 (ascii ''HAPPY Kids'')) (ascii ''happy'')"
proof -
  have a: "starts_with (ascii ''HAPPY Kids'') (ascii ''HAPPY'') \<and> \<not> is_word_at (ascii ''HAPPY Kids'') 5"
    by (simp add: title_eval)
  with happy_first_word_upper [of "ascii ''HAPPY Kids''" ucd_sample] show ?thesis by blast
qed

text \<open>
  C3, as the specification states it: a first-word-only alias matches if and only if it is the
  first whitespace-delimited token of the title. The pattern ends in \<^verbatim>\<open>(\b|\s|$)\<close>, so any
  character that is no word character may follow the alias: \<open>gum\<close> matches a title whose
  first token is \<open>Gum-Paste\<close>.
\<close>

theorem first_word_token_counterexample:
  "cache_matches ucd_sample (ascii ''Gum-Paste Relief'') (ascii ''gum'')
   \<and> spec_first_token (ascii ''Gum-Paste Relief'') = ascii ''Gum-Paste''
   \<and> \<not> same_text (spec_first_token (ascii ''Gum-Paste Relief'')) (ascii ''gum'')"
  by (simp add: gum_titles sample_tokens) (simp add: title_eval)

text \<open>
  C3, amended (\<open>t\<close> is the normalized title the matcher is given): for every alias on the
  first-word list other than \<open>happy\<close>, whose letter case the source treats apart, the
  matcher reports a match if and only if \<open>t\<close> starts with the alias, letter case ignored,
  and the end of the title or a character that is no letter, digit or underscore follows.
  The alias \<open>gum\<close> does not match \<open>Sensitive Gum Protection\<close> and matches
  \<open>Gum Paste Relief\<close>.
\<close>

theorem first_word_policy:
  "(b \<in> set firstWordBrandValidationList \<and> b \<noteq> ascii ''happy'' \<and> b \<noteq> ascii ''HAPPY'' \<longrightarrow>
      (cache_matches U t b \<longleftrightarrow> same_text (take (length b) t) b \<and> \<not> is_word_at t (length b)))
   \<and> \<not> cache_matches U (ascii ''Sensitive Gum Protection'') (ascii ''gum'')
   \<and> cache_matches U (ascii ''Gum Paste Relief'') (ascii ''gum'')"
  using first_word_brand_match [of b U t] gum_titles(1,2) [of U] by blast

theorem first_word_policy_witness:
  "ascii ''free'' \<in> set firstWordBrandValidationList
   \<and> ascii ''free'' \<noteq> ascii ''happy'' \<and> ascii ''free'' \<noteq> ascii ''HAPPY''
   \<and> cache_matches ucd_sample (ascii ''FREE style 3'') (ascii ''free'')
   \<and> same_text (take (length (ascii ''free'')) (ascii ''FREE style 3'')) (ascii ''free'')
   \<and> \<not> is_word_at (ascii ''FREE style 3'') (length (ascii ''free''))"
proof -
  have m: "ascii ''free'' \<in> set firstWordBrandValidationList
      \<and> ascii ''free'' \<noteq> ascii ''happy'' \<and> ascii ''free'' \<noteq> ascii ''HAPPY''"
    by (simp add: firstWordBrandValidationList_def ascii_def)
  have "same_text (take (length (ascii ''free'')) (ascii ''FREE style 3'')) (ascii ''free'')
     \<and> \<not> is_word_at (ascii ''FREE style 3'') (length (ascii ''free''))"
    by (simp add: title_eval)
  with first_word_policy [of "ascii ''free''" ucd_sample "ascii ''FREE style 3''"] m
  show ?thesis by blast
qed

text \<open>
  C9, as the specification states it: for every alias and title the compiled pattern gives the
  verdict of \<^verbatim>\<open>checkBrandIsSeparateTerm\<close>. For an alias on no position list the earlier
  function also accepts the alias between white space (its pattern \<^verbatim>\<open>.*\se\s.*\<close>), the
  compiled pattern \<^verbatim>\<open>\be\b\<close> does not: the alias \<open>dr.\<close> ends in a full stop, and between
  the full stop and the space after it there is no word boundary.
\<close>

theorem cache_equivalence_counterexample:
  "buildBrandMatchCache [ascii ''dr.''] = [cache_entry (ascii ''dr.'')]
   \<and> \<not> checkBrandMatch ucd_sample (normalize_uncached ucd_sample (ascii ''x dr. y''))
         (cache_entry (ascii ''dr.''))
   \<and> checkBrandIsSeparateTerm ucd_sample (ascii ''x dr. y'') (ascii ''dr.'')"
  by (simp add: dr_verdicts dr_not_listed)

text \<open>
  C9, amended: for every pattern that \<^verbatim>\<open>buildBrandMatchCache\<close> compiles for an alias that
  begins and ends with a letter, a digit or an underscore, \<^verbatim>\<open>checkBrandMatch\<close> on the
  normalized title gives the verdict of \<^verbatim>\<open>checkBrandIsSeparateTerm\<close> on the title, in the
  variant of \<^verbatim>\<open>brands.ts\<close> and in the gated variant alike.
\<close>

theorem cache_equivalence_edge_word:
  "\<forall>entry \<in> set (buildBrandMatchCache brands).
      edge_word (brand entry) \<longrightarrow>
        checkBrandMatch U (normalize_uncached U input) entry
          = checkBrandIsSeparateTerm U input (brand entry)
        \<and> checkBrandMatch U (normalize_uncached U input) entry
          = checkBrandIsSeparateTerm_gated U input (brand entry)"
proof (intro ballI impI)
  fix entry assume "entry \<in> set (buildBrandMatchCache brands)" and w: "edge_word (brand entry)"
  then obtain b where b: "entry = cache_entry b" by (auto simp: buildBrandMatchCache_map)
  then have "edge_word b" using w by (simp add: brand_cache_entry)
  from cache_agrees_with_earlier [OF this, of U input]
  show "checkBrandMatch U (normalize_uncached U input) entry
          = checkBrandIsSeparateTerm U input (brand entry)
        \<and> checkBrandMatch U (normalize_uncached U input) entry
          = checkBrandIsSeparateTerm_gated U input (brand entry)"
    unfolding b brand_cache_entry by simp
qed

theorem cache_equivalence_edge_word_witness:
  "cache_entry (ascii ''dr. max'') \<in> set (buildBrandMatchCache [ascii ''bio'', ascii ''dr. max''])
   \<and> edge_word (brand (cache_entry (ascii ''dr. max'')))
   \<and> ascii ''dr. max'' \<notin> set firstWordBrandValidationList
   \<and> ascii ''dr. max'' \<notin> set firstOrSecondWordBrandValidationList
   \<and> checkBrandMatch ucd_sample (normalize_uncached ucd_sample (ascii ''x dr. max y''))
        (cache_entry (ascii ''dr. max''))
   \<and> checkBrandIsSeparateTerm ucd_sample (ascii ''x dr. max y'') (ascii ''dr. max'')
   \<and> checkBrandIsSeparateTerm_gated ucd_sample (ascii ''x dr. max y'') (ascii ''dr. max'')"
proof -
  have m: "cache_entry (ascii ''dr. max'') \<in> set (buildBrandMatchCache [ascii ''bio'', ascii ''dr. max''])"
    by (simp add: ignoreBrandsList_def ascii_def)
  have w: "edge_word (brand (cache_entry (ascii ''dr. max'')))"
    by (simp add: brand_cache_entry dr_max_text)
  from cache_equivalence_edge_word [of "[ascii ''bio'', ascii ''dr. max'']" ucd_sample
      "ascii ''x dr. max y''"] m w dr_max_matches [of ucd_sample] dr_max_listed
  show ?thesis by (auto simp: brand_cache_entry)
qed

text \<open>
  C2. The specification is right and the code misses a case. A row with an empty
  secondary text makes the empty string an alias; it is a candidate, it occurs at index 0 of
  every title, and the scan selects it as the candidate of smallest index. The test
  \<^verbatim>\<open>if (!priorityBrand)\<close>, commented "Fallback to first matched brand if no priority found",
  then takes the empty string that was found for no priority, and the first matched alias is
  emitted instead: for the row \<^verbatim>\<open>Acme\<close> with an empty secondary text and the title
  \<open>x acme\<close>, the candidate of smallest index is the empty string, at index 0, and the
  priority alias emitted is \<open>acme\<close>, at index 2.
\<close>

theorem priority_alias_empty_candidate:
  "assignBrandIfKnown ucd_sample array_prototype_sample
     [\<lparr>manufacturer_p1 = ascii ''Acme'', manufacturers_p2 = []\<rparr>]
     [\<lparr>title = ascii ''x acme'', source_id = ascii ''1''\<rparr>]
   = Inr [\<lparr>product = ascii ''x acme'', matchedBrands = [ascii ''acme'', []],
           assignedBrand = Some (Str (ascii ''acme'')), priorityBrand = Some (ascii ''acme'')\<rparr>]
   \<and> run_candidates ucd_sample array_prototype_sample
        [\<lparr>manufacturer_p1 = ascii ''Acme'', manufacturers_p2 = []\<rparr>]
        [ascii ''acme'', []] = [[], ascii ''acme'']
   \<and> indexOf (lower_title ucd_sample (ascii ''x acme'')) [] = Some 0
   \<and> indexOf (lower_title ucd_sample (ascii ''x acme'')) (ascii ''acme'') = Some 2
   \<and> spec_leftmost (lower_title ucd_sample (ascii ''x acme'')) [[], ascii ''acme''] = Some []"
  by (simp add: acme_run acme_run_candidates acme_lower_title acme_leftmost)



end
